theory Spec2Isabelle
  imports Complex_Main "HOL-Library.Char_ord" "HOL-Library.List_Lexorder"
begin

section \<open>Values read by \<open>json.load\<close>\<close>

text \<open>
  \<open>scripts/vr_pack_for_claude.py\<close> reads BackstopJS reports with \<open>json.load\<close> and walks
  them with \<open>dict.get\<close>, \<open>or\<close> and \<open>for\<close>. A report is therefore an arbitrary JSON value:
  nothing in the script checks its shape, and a value of the wrong shape raises.
  Python objects returned by \<open>json.load\<close> are \<open>None\<close>, \<open>bool\<close>, \<open>int\<close>, \<open>float\<close>, \<open>str\<close>,
  \<open>list\<close> and \<open>dict\<close> with string keys. A finite float is kept as the rational it denotes
  (the script never computes with numbers, it only tests them for truth and uses them as
  dictionary keys); the non-finite constants \<open>NaN\<close> and \<open>Infinity\<close> are left out.
  A \<open>dict\<close> is an association list in insertion order, looked up with \<open>map_of\<close>.
\<close>

datatype json =
    JNull
  | JBool bool
  | JInt int
  | JFloat rat
  | JStr string
  | JArr "json list"
  | JObj "(string \<times> json) list"

datatype error = AttributeError | TypeError | KeyError | OSError

definition bnd :: "error + 'a \<Rightarrow> ('a \<Rightarrow> error + 'b) \<Rightarrow> error + 'b" where
  "bnd m f = (case m of Inl e \<Rightarrow> Inl e | Inr v \<Rightarrow> f v)"

text \<open>Python's truth value of an object, as \<open>or\<close> and \<open>if\<close> test it.\<close>

fun truthy :: "json \<Rightarrow> bool" where
  "truthy JNull = False"
| "truthy (JBool b) = b"
| "truthy (JInt n) = (n \<noteq> 0)"
| "truthy (JFloat q) = (q \<noteq> 0)"
| "truthy (JStr s) = (s \<noteq> [])"
| "truthy (JArr xs) = (xs \<noteq> [])"
| "truthy (JObj kvs) = (kvs \<noteq> [])"

text \<open>\<open>a or b\<close>.\<close>

definition py_or :: "json \<Rightarrow> json \<Rightarrow> json" where
  "py_or a b = (if truthy a then a else b)"

text \<open>
  \<open>x.get(k, d)\<close>: only a \<open>dict\<close> has the method, every other object raises
  \<open>AttributeError\<close>. \<open>x.get(k)\<close> is \<open>x.get(k, None)\<close>.
\<close>

fun py_get :: "json \<Rightarrow> string \<Rightarrow> json \<Rightarrow> error + json" where
  "py_get (JObj kvs) k d = Inr (case map_of kvs k of None \<Rightarrow> d | Some v \<Rightarrow> v)"
| "py_get _ k d = Inl AttributeError"

text \<open>
  \<open>for test in x\<close>: a list yields its elements, a string its characters (strings of
  length one), a dict its keys; the other objects are not iterable (\<open>TypeError\<close>).
\<close>

fun py_iter :: "json \<Rightarrow> error + json list" where
  "py_iter (JArr xs) = Inr xs"
| "py_iter (JStr s) = Inr (map (\<lambda>c. JStr [c]) s)"
| "py_iter (JObj kvs) = Inr (map (\<lambda>kv. JStr (fst kv)) kvs)"
| "py_iter _ = Inl TypeError"

text \<open>
  Dictionary keys. Python compares keys with \<open>==\<close> after hashing: \<open>True\<close>, \<open>1\<close> and
  \<open>1.0\<close> are one key, a list or a dict is unhashable (\<open>TypeError\<close>, here \<open>None\<close>).
\<close>

datatype pykey = KNone | KNum rat | KStr string

fun hash_key :: "json \<Rightarrow> pykey option" where
  "hash_key JNull = Some KNone"
| "hash_key (JBool b) = Some (KNum (if b then 1 else 0))"
| "hash_key (JInt n) = Some (KNum (of_int n))"
| "hash_key (JFloat q) = Some (KNum q)"
| "hash_key (JStr s) = Some (KStr s)"
| "hash_key (JArr xs) = None"
| "hash_key (JObj kvs) = None"

section \<open>Failed items\<close>

text \<open>The dict appended to \<open>failed_items\<close> (lines 101-107).\<close>

record item =
  label :: json
  url :: json
  fileName :: json
  mismatch :: json
  selectors :: json

text \<open>
  The body of the inner loop (lines 99-107) for one test entry: \<open>None\<close> when the status is
  not \<open>"fail"\<close>, the failed item otherwise. The fields are read in the order of the dict
  display.
\<close>

definition failed_item :: "json \<Rightarrow> error + item option" where
  "failed_item test =
     bnd (py_get test ''status'' JNull) (\<lambda>status.
       if status = JStr ''fail'' then
         bnd (py_get test ''pair'' (JObj [])) (\<lambda>pair.
         bnd (py_get pair ''label'' JNull) (\<lambda>l.
         bnd (py_get pair ''url'' JNull) (\<lambda>u.
         bnd (py_get pair ''fileName'' JNull) (\<lambda>fn.
         bnd (py_get pair ''diff'' JNull) (\<lambda>d.
         bnd (py_get (py_or d (JObj [])) ''misMatchPercentage'' JNull) (\<lambda>mm.
         bnd (py_get pair ''selectors'' JNull) (\<lambda>sel.
           Inr (Some \<lparr>label = py_or l (JStr ''unknown''), url = py_or u (JStr []),
                      fileName = fn, mismatch = mm, selectors = sel\<rparr>))))))))
       else Inr None)"

text \<open>The inner loop over the test entries, appending to \<open>failed_items\<close>.\<close>

fun scan_tests :: "item list \<Rightarrow> json list \<Rightarrow> error + item list" where
  "scan_tests failed_items [] = Inr failed_items"
| "scan_tests failed_items (test # tests) =
     bnd (failed_item test) (\<lambda>r.
       case r of None \<Rightarrow> scan_tests failed_items tests
               | Some it \<Rightarrow> scan_tests (failed_items @ [it]) tests)"

text \<open>
  What \<open>open\<close> and \<open>json.load\<close> give for one path inside the \<open>try\<close> (lines 91-96): an
  exception (the file is skipped) or the loaded value.
\<close>

datatype file_content = Unreadable | Loaded json

text \<open>Line 98 for one loaded report: \<open>data.get("tests", []) or []\<close>, then the inner loop.\<close>

definition scan_report :: "item list \<Rightarrow> json \<Rightarrow> error + item list" where
  "scan_report failed_items data =
     bnd (py_get data ''tests'' (JArr [])) (\<lambda>t.
     bnd (py_iter (py_or t (JArr []))) (\<lambda>tests.
       scan_tests failed_items tests))"

text \<open>The outer loop over the files (lines 90-107).\<close>

fun scan_files :: "item list \<Rightarrow> file_content list \<Rightarrow> error + item list" where
  "scan_files failed_items [] = Inr failed_items"
| "scan_files failed_items (Unreadable # fs) = scan_files failed_items fs"
| "scan_files failed_items (Loaded data # fs) =
     bnd (scan_report failed_items data) (\<lambda>failed_items'. scan_files failed_items' fs)"

section \<open>Grouping by page\<close>

record page_summary =
  page :: json
  count :: int
  samples :: "json list"

text \<open>
  \<open>by_page\<close> is a Python dict: keys in insertion order, a key stored once.
\<close>

type_synonym by_page = "(pykey \<times> page_summary) list"

definition setdefault :: "by_page \<Rightarrow> pykey \<Rightarrow> page_summary \<Rightarrow> by_page" where
  "setdefault bp k d = (if map_of bp k = None then bp @ [(k, d)] else bp)"

definition getitem :: "by_page \<Rightarrow> pykey \<Rightarrow> error + page_summary" where
  "getitem bp k = (case map_of bp k of None \<Rightarrow> Inl KeyError | Some s \<Rightarrow> Inr s)"

text \<open>Mutation of the dict stored under \<open>k\<close>.\<close>

definition modify :: "by_page \<Rightarrow> pykey \<Rightarrow> (page_summary \<Rightarrow> page_summary) \<Rightarrow> by_page" where
  "modify bp k f = map (\<lambda>(k', s). if k' = k then (k', f s) else (k', s)) bp"

text \<open>The body of the loop at lines 110-115.\<close>

definition add_item :: "by_page \<Rightarrow> item \<Rightarrow> error + by_page" where
  "add_item bp it =
     (case hash_key (label it) of
        None \<Rightarrow> Inl TypeError
      | Some p \<Rightarrow>
          let bp1 = setdefault bp p \<lparr>page = label it, count = 0, samples = []\<rparr> in
          bnd (getitem bp1 p) (\<lambda>s1.
            let bp2 = modify bp1 p (\<lambda>s. s\<lparr>count := count s + 1\<rparr>) in
            bnd (getitem bp2 p) (\<lambda>s2.
              if length (samples s2) < 5 \<and> truthy (fileName it)
              then bnd (getitem bp2 p) (\<lambda>s3.
                     Inr (modify bp2 p (\<lambda>s. s\<lparr>samples := samples s @ [fileName it]\<rparr>)))
              else Inr bp2)))"

fun group_items :: "by_page \<Rightarrow> item list \<Rightarrow> error + by_page" where
  "group_items bp [] = Inr bp"
| "group_items bp (it # its) = bnd (add_item bp it) (\<lambda>bp'. group_items bp' its)"

section \<open>The aggregator \<open>collect_diffs\<close>\<close>

record summary =
  pages :: "page_summary list"
  totalFailed :: int

text \<open>
  The report directory is the list of its entries, each with what reading it gives.
  \<open>glob.glob(os.path.join(report_dir, "*.json"))\<close> keeps the names that end in \<open>.json\<close>
  and do not start with a dot; \<open>sorted\<close> orders the paths, which share the prefix
  \<open>report_dir/\<close>, by name.
\<close>

type_synonym directory = "(string \<times> file_content) list"

definition matches_json :: "string \<Rightarrow> bool" where
  "matches_json n \<longleftrightarrow>
     5 \<le> length n \<and> drop (length n - 5) n = ''.json'' \<and> hd n \<noteq> CHR ''.''"

definition glob_json :: "directory \<Rightarrow> directory" where
  "glob_json dir = filter (\<lambda>e. matches_json (fst e)) dir"

definition report_files :: "directory \<Rightarrow> directory" where
  "report_files dir = sort_key fst (glob_json dir)"

text \<open>
  The output file \<open>out/diff-summary.json\<close>: \<open>out_file\<close> is the summary it holds (the text
  \<open>json.dump(summary, f, indent=2)\<close> writes is not modelled beyond the value it encodes),
  \<open>out_writable\<close> tells whether \<open>open(..., "w")\<close> succeeds (it raises \<open>OSError\<close> when the
  directory \<open>out\<close> is missing).
\<close>

record world =
  out_writable :: bool
  out_file :: "summary option"

definition write_summary :: "summary \<Rightarrow> world \<Rightarrow> (error + unit) \<times> world" where
  "write_summary s w =
     (if out_writable w then (Inr (), w\<lparr>out_file := Some s\<rparr>) else (Inl OSError, w))"

definition collect_diffs :: "directory \<Rightarrow> world \<Rightarrow> (error + summary) \<times> world" where
  "collect_diffs report_dir w =
     (let files = report_files report_dir in
      if files = [] then (Inr \<lparr>pages = [], totalFailed = 0\<rparr>, w)
      else
        case scan_files [] (map snd files) of
          Inl e \<Rightarrow> (Inl e, w)
        | Inr failed_items \<Rightarrow>
            (case group_items [] failed_items of
               Inl e \<Rightarrow> (Inl e, w)
             | Inr by_page \<Rightarrow>
                 let summary = \<lparr>pages = map snd by_page,
                                totalFailed = int (length failed_items)\<rparr> in
                 (case write_summary summary w of
                    (Inl e, w') \<Rightarrow> (Inl e, w')
                  | (Inr u, w') \<Rightarrow> (Inr summary, w'))))"


section \<open>The command \<open>main\<close>\<close>

text \<open>
  \<open>main\<close> after \<open>argparse\<close> has accepted the command line. The environment gives what
  each access to the outside yields: whether \<open>out_dir.mkdir(exist_ok=True)\<close> succeeds, the
  paths for which \<open>os.path.exists\<close> holds, what \<open>read_text\<close> gives for the task file,
  the report directory that the BackstopJS run leaves, the state of
  \<open>out/diff-summary.json\<close> and whether \<open>out/ai-packet.md\<close> can be written.
  The text of the packet (\<open>parse_task_markdown\<close>, \<open>build_packet_md\<close>) is not modelled:
  both are string formatting that raises nothing once the task file is read.
  \<open>run_backstop\<close> only prints the exit code of the tool, and
  \<open>read_backstop_full_json\<close> catches every error of the files it reads.
\<close>

record args =
  task :: string
  site_url :: string
  backstop_config :: string
  include_full_json :: bool
  open_report :: bool

record env =
  mkdir_ok :: bool
  existing :: "string list"
  task_text :: "error + string"
  reports :: directory
  out :: world
  packet_writable :: bool

datatype event =
    MkdirOut
  | TaskNotFound string
  | ParseTask
  | RunBackstop string string
  | CollectDiffs
  | WriteSummary
  | ReadFullJson
  | WritePacket
  | OpenReport

datatype ending = Returned | SysExit int | Uncaught error


text \<open>
  \<open>main\<close> gives how the process ends, the steps it took in order, and the final state of
  the output file.
\<close>

definition main :: "args \<Rightarrow> env \<Rightarrow> ending \<times> event list \<times> world" where
  "main a e =
     (if \<not> mkdir_ok e then (Uncaught OSError, [MkdirOut], out e)
      else if task a \<notin> set (existing e) then
        (SysExit 2, [MkdirOut, TaskNotFound (task a)], out e)
      else
        case task_text e of
          Inl err \<Rightarrow> (Uncaught err, [MkdirOut, ParseTask], out e)
        | Inr text \<Rightarrow>
            let steps = [MkdirOut, ParseTask, RunBackstop (site_url a) (backstop_config a),
                         CollectDiffs] in
            (case collect_diffs (reports e) (out e) of
               (Inl err, w1) \<Rightarrow> (Uncaught err, steps, w1)
             | (Inr diff_summary, w1) \<Rightarrow>
                 (case write_summary diff_summary w1 of
                    (Inl err, w2) \<Rightarrow> (Uncaught err, steps @ [WriteSummary], w2)
                  | (Inr u, w2) \<Rightarrow>
                      let steps2 = steps @ [WriteSummary] @
                                   (if include_full_json a then [ReadFullJson] else []) in
                      if \<not> packet_writable e then
                        (Uncaught OSError, steps2 @ [WritePacket], w2)
                      else
                        (Returned,
                         steps2 @ [WritePacket] @ (if open_report a then [OpenReport] else []),
                         w2))))"

section \<open>Notions used to state the properties\<close>

text \<open>
  The failed items of a run, read off the reports without the accumulator: the test
  entries of a loaded report, the item of an entry (none when the entry is not failing),
  the items of a file and of a directory, in the order the loops visit them.
\<close>

definition entry_item :: "json \<Rightarrow> item option" where
  "entry_item test = (case failed_item test of Inr (Some it) \<Rightarrow> Some it | _ \<Rightarrow> None)"

definition report_tests :: "json \<Rightarrow> json list" where
  "report_tests data =
     (case py_get data ''tests'' (JArr []) of
        Inl e \<Rightarrow> []
      | Inr t \<Rightarrow> (case py_iter (py_or t (JArr [])) of Inl e \<Rightarrow> [] | Inr tests \<Rightarrow> tests))"

definition items_in_file :: "file_content \<Rightarrow> item list" where
  "items_in_file c =
     (case c of Unreadable \<Rightarrow> []
      | Loaded data \<Rightarrow> List.map_filter entry_item (report_tests data))"

definition failed_items :: "directory \<Rightarrow> item list" where
  "failed_items dir = concat (map (\<lambda>e. items_in_file (snd e)) (report_files dir))"

text \<open>Two labels name the same page when Python takes them for the same dictionary key.\<close>

definition same_page :: "json \<Rightarrow> json \<Rightarrow> bool" where
  "same_page a b \<longleftrightarrow> hash_key a = hash_key b"

definition items_of_page :: "json \<Rightarrow> directory \<Rightarrow> item list" where
  "items_of_page l dir = filter (\<lambda>it. same_page (label it) l) (failed_items dir)"

text \<open>The elements of a list in the order of their first occurrence, up to \<open>f\<close>.\<close>

fun first_occurrences_by :: "('a \<Rightarrow> 'b) \<Rightarrow> 'a list \<Rightarrow> 'a list" where
  "first_occurrences_by f [] = []"
| "first_occurrences_by f (x # xs) =
     x # first_occurrences_by f (filter (\<lambda>y. f y \<noteq> f x) xs)"

text \<open>
  A report of the shape the tool writes, fields possibly missing: a dict whose \<open>tests\<close> is
  missing, falsy or a list of dicts; in a failing entry \<open>pair\<close> is missing or a dict, whose
  \<open>diff\<close> is missing, falsy or a dict, and whose \<open>label\<close> is falsy or hashable.
\<close>

fun is_dict :: "json \<Rightarrow> bool" where
  "is_dict (JObj kvs) = True"
| "is_dict _ = False"

definition field :: "json \<Rightarrow> string \<Rightarrow> json" where
  "field x k = (case x of JObj kvs \<Rightarrow> (case map_of kvs k of None \<Rightarrow> JNull | Some v \<Rightarrow> v)
                | _ \<Rightarrow> JNull)"

definition has_field :: "json \<Rightarrow> string \<Rightarrow> bool" where
  "has_field x k = (case x of JObj kvs \<Rightarrow> map_of kvs k \<noteq> None | _ \<Rightarrow> False)"

definition is_failing :: "json \<Rightarrow> bool" where
  "is_failing test \<longleftrightarrow> field test ''status'' = JStr ''fail''"

definition pair_ok :: "json \<Rightarrow> bool" where
  "pair_ok pair \<longleftrightarrow>
     is_dict pair \<and>
     (\<not> truthy (field pair ''diff'') \<or> is_dict (field pair ''diff'')) \<and>
     (\<not> truthy (field pair ''label'') \<or> hash_key (field pair ''label'') \<noteq> None)"

definition entry_ok :: "json \<Rightarrow> bool" where
  "entry_ok test \<longleftrightarrow>
     is_dict test \<and>
     (is_failing test \<and> has_field test ''pair'' \<longrightarrow> pair_ok (field test ''pair''))"

definition report_ok :: "json \<Rightarrow> bool" where
  "report_ok data \<longleftrightarrow>
     is_dict data \<and>
     (\<not> truthy (field data ''tests'') \<or>
      (case field data ''tests'' of JArr tests \<Rightarrow> list_all entry_ok tests | _ \<Rightarrow> False))"

definition file_ok :: "file_content \<Rightarrow> bool" where
  "file_ok c = (case c of Unreadable \<Rightarrow> True | Loaded data \<Rightarrow> report_ok data)"

text \<open>A file without failing test entry.\<close>

definition no_failing_entry :: "file_content \<Rightarrow> bool" where
  "no_failing_entry c =
     (case c of Unreadable \<Rightarrow> True
      | Loaded data \<Rightarrow> list_all (\<lambda>t. \<not> is_failing t) (report_tests data))"

text \<open>A loaded report whose top-level \<open>tests\<close> is missing or \<open>null\<close>.\<close>

definition tests_missing :: "file_content \<Rightarrow> bool" where
  "tests_missing c =
     (case c of Unreadable \<Rightarrow> False
      | Loaded data \<Rightarrow> is_dict data \<and> field data ''tests'' = JNull)"

text \<open>Observations of \<open>by_page\<close> used in the invariants of the grouping loop.\<close>

definition cnt :: "by_page \<Rightarrow> pykey \<Rightarrow> int" where
  "cnt bp k = (case map_of bp k of None \<Rightarrow> 0 | Some s \<Rightarrow> count s)"

definition smp :: "by_page \<Rightarrow> pykey \<Rightarrow> json list" where
  "smp bp k = (case map_of bp k of None \<Rightarrow> [] | Some s \<Rightarrow> samples s)"

definition total :: "by_page \<Rightarrow> int" where
  "total bp = sum_list (map (\<lambda>e. count (snd e)) bp)"

definition bump :: "json \<Rightarrow> page_summary \<Rightarrow> page_summary" where
  "bump fn s = (if length (samples s) < 5 \<and> truthy fn
                then s\<lparr>count := count s + 1, samples := samples s @ [fn]\<rparr>
                else s\<lparr>count := count s + 1\<rparr>)"

definition entry_or_new :: "by_page \<Rightarrow> pykey \<Rightarrow> item \<Rightarrow> page_summary" where
  "entry_or_new bp p it =
     (case map_of bp p of None \<Rightarrow> \<lparr>page = label it, count = 0, samples = []\<rparr> | Some s \<Rightarrow> s)"

definition keyed :: "by_page \<Rightarrow> bool" where
  "keyed bp \<longleftrightarrow>
     distinct (map fst bp) \<and> (\<forall>e \<in> set bp. hash_key (page (snd e)) = Some (fst e))"


section \<open>An example run\<close>

text \<open>
  A report directory with two reports holding failures, a report whose \<open>tests\<close> is
  \<open>null\<close>, a file that cannot be parsed and a file that is no report; one failing entry
  has no \<open>pair\<close>.
\<close>

definition failing_entry :: "string \<Rightarrow> string \<Rightarrow> json" where
  "failing_entry l fn =
     JObj [(''status'', JStr ''fail''),
           (''pair'', JObj [(''label'', JStr l), (''url'', JStr ''http://site.local/''),
                            (''fileName'', JStr fn),
                            (''diff'', JObj [(''misMatchPercentage'', JStr ''1.25'')])])]"

definition passing_entry :: "string \<Rightarrow> json" where
  "passing_entry l = JObj [(''status'', JStr ''pass''), (''pair'', JObj [(''label'', JStr l)])]"

definition home_report :: json where
  "home_report =
     JObj [(''tests'',
            JArr [failing_entry ''home'' ''h1.png'', passing_entry ''about'',
                  failing_entry ''home'' ''h2.png'', JObj [(''status'', JStr ''fail'')]])]"

definition example_dir :: directory where
  "example_dir =
     [(''b.json'', Loaded (JObj [(''tests'', JArr [failing_entry ''pricing'' ''p.png''])])),
      (''notes.txt'', Unreadable),
      (''c.json'', Unreadable),
      (''a.json'', Loaded home_report),
      (''d.json'', Loaded (JObj [(''tests'', JNull)]))]"

definition example_world :: world where
  "example_world = \<lparr>out_writable = True, out_file = None\<rparr>"

definition home_page :: page_summary where
  "home_page = \<lparr>page = JStr ''home'', count = 2, samples = [JStr ''h1.png'', JStr ''h2.png'']\<rparr>"

definition example_summary :: summary where
  "example_summary =
     \<lparr>pages = [home_page,
               \<lparr>page = JStr ''unknown'', count = 1, samples = []\<rparr>,
               \<lparr>page = JStr ''pricing'', count = 1, samples = [JStr ''p.png'']\<rparr>],
      totalFailed = 4\<rparr>"

definition example_world_after :: world where
  "example_world_after = \<lparr>out_writable = True, out_file = Some example_summary\<rparr>"

text \<open>The item of a failing entry without \<open>pair\<close>.\<close>

definition unknown_item :: item where
  "unknown_item = \<lparr>label = JStr ''unknown'', url = JStr [], fileName = JNull,
                    mismatch = JNull, selectors = JNull\<rparr>"

text \<open>
  More inputs: a directory without failing entry, an output file left by an earlier run,
  single test entries and files, and two environments of \<open>main\<close>, without and with the
  task file.
\<close>

definition quiet_dir :: directory where
  "quiet_dir =
     [(''b.json'', Unreadable),
      (''a.json'', Loaded (JObj [(''tests'', JArr [passing_entry ''home'', JObj []])])),
      (''c.json'', Loaded (JObj []))]"

definition stale_world :: world where
  "stale_world = \<lparr>out_writable = True, out_file = Some example_summary\<rparr>"

definition pairless_entry :: json where
  "pairless_entry = JObj [(''status'', JStr ''fail'')]"

definition falsy_label_entry :: json where
  "falsy_label_entry =
     JObj [(''status'', JStr ''fail''),
           (''pair'', JObj [(''label'', JStr []), (''url'', JNull), (''fileName'', JStr ''x.png'')])]"

definition falsy_label_item :: item where
  "falsy_label_item = \<lparr>label = JStr ''unknown'', url = JStr [], fileName = JStr ''x.png'',
                        mismatch = JNull, selectors = JNull\<rparr>"

definition tests_null_file :: file_content where
  "tests_null_file = Loaded (JObj [(''tests'', JNull)])"

definition example_args :: args where
  "example_args = \<lparr>task = ''task-descriptions/task-1.md'',
                    site_url = ''http://talk-ai-for-qa-in-wordpress.local'',
                    backstop_config = ''backstop.json'',
                    include_full_json = False, open_report = False\<rparr>"


definition env_with_task :: env where
  "env_with_task = \<lparr>mkdir_ok = True, existing = [''out'', ''task-descriptions/task-1.md''],
                      task_text = Inr ''Title: refactor'',
                      reports = example_dir, out = example_world, packet_writable = True\<rparr>"

text \<open>
  Seven failures of one page, a report whose labels are \<open>true\<close> and \<open>1\<close>, and reports of
  another shape than the tool's.
\<close>

definition pricing_dir :: directory where
  "pricing_dir =
     [(''run.json'', Loaded (JObj [(''tests'',
         JArr (map (\<lambda>fn. failing_entry ''pricing'' fn)
                 [''f1.png'', ''f2.png'', ''f3.png'', ''f4.png'', ''f5.png'', ''f6.png'',
                  ''f7.png'']))]))]"

definition labelled_entry :: "json \<Rightarrow> json" where
  "labelled_entry l = JObj [(''status'', JStr ''fail''), (''pair'', JObj [(''label'', l)])]"

definition one_report :: "json \<Rightarrow> directory" where
  "one_report data = [(''run.json'', Loaded data)]"

text \<open>
  A report with a failing entry whose label is the empty string and whose url is \<open>null\<close>,
  next to a failing entry without \<open>pair\<close>; the page of the item without file name; an
  environment of \<open>main\<close> whose report directory holds no report while the output file
  holds the summary of an earlier run.
\<close>

definition falsy_report :: json where
  "falsy_report = JObj [(''tests'', JArr [falsy_label_entry, pairless_entry])]"

definition falsy_summary :: summary where
  "falsy_summary =
     \<lparr>pages = [\<lparr>page = JStr ''unknown'', count = 2, samples = [JStr ''x.png'']\<rparr>],
      totalFailed = 2\<rparr>"

definition unknown_only :: by_page where
  "unknown_only = [(KStr ''unknown'', \<lparr>page = JStr ''unknown'', count = 1, samples = []\<rparr>)]"

definition empty_summary :: summary where
  "empty_summary = \<lparr>pages = [], totalFailed = 0\<rparr>"

definition env_no_reports :: env where
  "env_no_reports = \<lparr>mkdir_ok = True, existing = [''out'', ''task-descriptions/task-1.md''],
                       task_text = Inr ''Title: refactor'',
                       reports = [(''notes.txt'', Unreadable)], out = stale_world,
                       packet_writable = True\<rparr>"

text \<open>
  The entry of \<open>falsy_label_entry\<close> with its label left out, and output files once
  written.
\<close>

definition labelless_entry :: json where
  "labelless_entry =
     JObj [(''status'', JStr ''fail''),
           (''pair'', JObj [(''url'', JNull), (''fileName'', JStr ''x.png'')])]"

definition falsy_world_after :: world where
  "falsy_world_after = \<lparr>out_writable = True, out_file = Some falsy_summary\<rparr>"

definition overwritten_world :: world where
  "overwritten_world = \<lparr>out_writable = True, out_file = Some empty_summary\<rparr>"

section \<open>The grouping loop\<close>

lemma map_of_modify:
  "map_of (modify bp k f) k' = (if k' = k then map_option f (map_of bp k) else map_of bp k')"
  unfolding modify_def by (induction bp) auto

lemma keys_modify [simp]: "map fst (modify bp k f) = map fst bp"
  unfolding modify_def by (induction bp) auto

lemma modify_modify: "modify (modify bp k f) k g = modify bp k (g \<circ> f)"
  unfolding modify_def by (induction bp) auto

lemma modify_append: "modify (xs @ ys) k f = modify xs k f @ modify ys k f"
  unfolding modify_def by simp

lemma modify_absent: "map_of bp k = None \<Longrightarrow> modify bp k f = bp"
  unfolding modify_def by (induction bp) (auto split: if_splits)

lemma add_item_unhashable: "hash_key (label it) = None \<Longrightarrow> add_item bp it = Inl TypeError"
  by (simp add: add_item_def)

lemma modify_cong:
  assumes "distinct (map fst bp)" and "map_of bp k = Some s" and "f s = g s"
  shows "modify bp k f = modify bp k g"
proof -
  have "\<And>s'. (k, s') \<in> set bp \<Longrightarrow> s' = s"
    using assms(1,2) by (metis map_of_is_SomeI option.inject)
  then show ?thesis using assms(3)
    unfolding modify_def by (intro map_cong) (auto split: prod.splits)
qed

lemma add_item_old:
  assumes "hash_key (label it) = Some p" and "map_of bp p = Some s" and "distinct (map fst bp)"
  shows "add_item bp it = Inr (modify bp p (bump (fileName it)))"
proof -
  have "modify bp p ((\<lambda>s. s\<lparr>samples := samples s @ [fileName it]\<rparr>) \<circ> (\<lambda>s. s\<lparr>count := count s + 1\<rparr>))
        = modify bp p (bump (fileName it))"
    if "length (samples s) < 5" "truthy (fileName it)"
    using that by (intro modify_cong [OF assms(3,2)]) (simp add: bump_def)
  moreover have "modify bp p (\<lambda>s. s\<lparr>count := count s + 1\<rparr>) = modify bp p (bump (fileName it))"
    if "\<not> (length (samples s) < 5 \<and> truthy (fileName it))"
    using that by (intro modify_cong [OF assms(3,2)]) (auto simp add: bump_def)
  ultimately show ?thesis
    using assms(1,2)
    by (auto simp: add_item_def setdefault_def getitem_def bnd_def Let_def map_of_modify
      modify_modify)
qed

lemma add_item_new:
  assumes "hash_key (label it) = Some p" and "map_of bp p = None"
  shows "add_item bp it =
         Inr (bp @ [(p, bump (fileName it) \<lparr>page = label it, count = 0, samples = []\<rparr>)])"
  using assms
  by (auto simp: add_item_def setdefault_def getitem_def bnd_def Let_def map_of_modify
      modify_modify modify_append modify_absent bump_def map_add_def)
     (auto simp: modify_def)

lemma bump_simps [simp]:
  "count (bump fn s) = count s + 1"
  "page (bump fn s) = page s"
  "samples (bump fn s) = (if length (samples s) < 5 \<and> truthy fn then samples s @ [fn] else samples s)"
  by (simp_all add: bump_def)

lemma modify_Cons:
  "modify ((k', s) # bp) k f = (if k' = k then (k', f s) else (k', s)) # modify bp k f"
  by (simp add: modify_def)

lemma total_Cons: "total (e # bp) = count (snd e) + total bp"
  by (simp add: total_def)

lemma total_modify:
  assumes "distinct (map fst bp)" and "map_of bp p = Some s"
  shows "total (modify bp p f) = total bp - count s + count (f s)"
  using assms
proof (induction bp)
  case Nil
  then show ?case by simp
next
  case (Cons e bp)
  obtain k' s' where e: "e = (k', s')" by (cases e)
  show ?case
  proof (cases "k' = p")
    case True
    with Cons.prems e have "map_of bp p = None" "s' = s"
      by (auto simp: map_of_eq_None_iff)
    with True e show ?thesis
      by (simp add: modify_Cons total_Cons modify_absent)
  next
    case False
    with Cons e show ?thesis
      by (simp add: modify_Cons total_Cons)
  qed
qed

lemma pages_modify:
  "(\<And>s. page (f s) = page s) \<Longrightarrow> map (\<lambda>e. page (snd e)) (modify bp p f) = map (\<lambda>e. page (snd e)) bp"
  unfolding modify_def by (induction bp) auto

lemma add_item_step:
  assumes "distinct (map fst bp)" and "add_item bp it = Inr bp'"
  obtains p where "hash_key (label it) = Some p"
    and "distinct (map fst bp')"
    and "total bp' = total bp + 1"
    and "map fst bp' = (if p \<in> set (map fst bp) then map fst bp else map fst bp @ [p])"
    and "map (\<lambda>e. page (snd e)) bp' =
           (if p \<in> set (map fst bp) then map (\<lambda>e. page (snd e)) bp
            else map (\<lambda>e. page (snd e)) bp @ [label it])"
    and "\<And>k. map_of bp' k =
           (if k = p then Some (bump (fileName it) (entry_or_new bp p it)) else map_of bp k)"
proof -
  obtain p where p: "hash_key (label it) = Some p"
    using assms(2) by (cases "hash_key (label it)") (auto simp: add_item_unhashable)
  show thesis
  proof (cases "map_of bp p")
    case None
    then have notin: "p \<notin> set (map fst bp)" by (simp add: map_of_eq_None_iff)
    from add_item_new [OF p None] assms(2)
    have bp': "bp' = bp @ [(p, bump (fileName it) \<lparr>page = label it, count = 0, samples = []\<rparr>)]"
      by simp
    show thesis
    proof (rule that [OF p])
      show "distinct (map fst bp')" using assms(1) notin bp' by simp
      show "total bp' = total bp + 1" using bp' by (simp add: total_def)
      show "map fst bp' = (if p \<in> set (map fst bp) then map fst bp else map fst bp @ [p])"
        using notin bp' by simp
      show "map (\<lambda>e. page (snd e)) bp' =
           (if p \<in> set (map fst bp) then map (\<lambda>e. page (snd e)) bp
            else map (\<lambda>e. page (snd e)) bp @ [label it])"
        using notin bp' by simp
      show "map_of bp' k =
           (if k = p then Some (bump (fileName it) (entry_or_new bp p it)) else map_of bp k)" for k
        using None bp' by (auto simp: entry_or_new_def map_add_def split: option.splits)
    qed
  next
    case (Some s)
    then have isin: "p \<in> set (map fst bp)" by (metis map_of_eq_None_iff option.distinct(1) set_map)
    from add_item_old [OF p Some assms(1)] assms(2)
    have bp': "bp' = modify bp p (bump (fileName it))" by simp
    show thesis
    proof (rule that [OF p])
      show "distinct (map fst bp')" using assms(1) bp' by simp
      show "total bp' = total bp + 1"
        using total_modify [OF assms(1) Some] bp' by simp
      show "map fst bp' = (if p \<in> set (map fst bp) then map fst bp else map fst bp @ [p])"
        using isin bp' by simp
      show "map (\<lambda>e. page (snd e)) bp' =
           (if p \<in> set (map fst bp) then map (\<lambda>e. page (snd e)) bp
            else map (\<lambda>e. page (snd e)) bp @ [label it])"
        using isin bp' by (simp add: pages_modify)
      show "map_of bp' k =
           (if k = p then Some (bump (fileName it) (entry_or_new bp p it)) else map_of bp k)" for k
        using Some bp' by (simp add: entry_or_new_def map_of_modify)
    qed
  qed
qed

lemma group_items_total:
  assumes "distinct (map fst bp)" and "group_items bp its = Inr bp'"
  shows "distinct (map fst bp') \<and> total bp' = total bp + int (length its)"
  using assms
proof (induction its arbitrary: bp)
  case Nil
  then show ?case by simp
next
  case (Cons it its)
  from Cons.prems(2) obtain bp1 where a: "add_item bp it = Inr bp1"
    and g: "group_items bp1 its = Inr bp'"
    by (auto simp: bnd_def split: sum.splits)
  from add_item_step [OF Cons.prems(1) a]
  have "distinct (map fst bp1)" and "total bp1 = total bp + 1" by metis+
  with Cons.IH [OF _ g] show ?case by simp
qed

lemma keyed_Nil [simp]: "keyed []"
  by (simp add: keyed_def)

lemma keyed_step:
  assumes "keyed bp" and "add_item bp it = Inr bp1"
  shows "keyed bp1"
proof -
  have d: "distinct (map fst bp)" using assms(1) by (simp add: keyed_def)
  from add_item_step [OF d assms(2)]
  obtain p where p: "hash_key (label it) = Some p"
    and d1: "distinct (map fst bp1)"
    and m: "\<And>k. map_of bp1 k =
           (if k = p then Some (bump (fileName it) (entry_or_new bp p it)) else map_of bp k)"
    by metis
  have "hash_key (page s) = Some k" if "(k, s) \<in> set bp1" for k s
  proof -
    from that d1 have ms: "map_of bp1 k = Some s" by simp
    show ?thesis
    proof (cases "k = p")
      case True
      with ms m have s: "s = bump (fileName it) (entry_or_new bp p it)" by simp
      show ?thesis
      proof (cases "map_of bp p")
        case None
        with s p True show ?thesis by (simp add: entry_or_new_def)
      next
        case (Some s0)
        then have "(p, s0) \<in> set bp" by (rule map_of_SomeD)
        with assms(1) have "hash_key (page s0) = Some p" by (auto simp: keyed_def)
        with s Some True show ?thesis by (simp add: entry_or_new_def)
      qed
    next
      case False
      with ms m have "map_of bp k = Some s" by simp
      then have "(k, s) \<in> set bp" by (rule map_of_SomeD)
      with assms(1) show ?thesis by (auto simp: keyed_def)
    qed
  qed
  with d1 show ?thesis by (auto simp: keyed_def)
qed

lemma group_items_keyed:
  assumes "keyed bp" and "group_items bp its = Inr bp'"
  shows "keyed bp'"
  using assms
proof (induction its arbitrary: bp)
  case Nil
  then show ?case by simp
next
  case (Cons it its)
  from Cons.prems(2) obtain bp1 where a: "add_item bp it = Inr bp1"
    and g: "group_items bp1 its = Inr bp'"
    by (auto simp: bnd_def split: sum.splits)
  from keyed_step [OF Cons.prems(1) a] Cons.IH [OF _ g] show ?case by simp
qed

lemma group_items_pages:
  assumes "distinct (map fst bp)" and "group_items bp its = Inr bp'"
  shows "map (\<lambda>e. page (snd e)) bp' =
         map (\<lambda>e. page (snd e)) bp @
         first_occurrences_by hash_key
           (filter (\<lambda>l. hash_key l \<notin> Some ` set (map fst bp)) (map label its))"
  using assms
proof (induction its arbitrary: bp)
  case Nil
  then show ?case by simp
next
  case (Cons it its)
  from Cons.prems(2) obtain bp1 where a: "add_item bp it = Inr bp1"
    and g: "group_items bp1 its = Inr bp'"
    by (auto simp: bnd_def split: sum.splits)
  from add_item_step [OF Cons.prems(1) a]
  obtain p where p: "hash_key (label it) = Some p"
    and d1: "distinct (map fst bp1)"
    and k1: "map fst bp1 = (if p \<in> set (map fst bp) then map fst bp else map fst bp @ [p])"
    and p1: "map (\<lambda>e. page (snd e)) bp1 =
           (if p \<in> set (map fst bp) then map (\<lambda>e. page (snd e)) bp
            else map (\<lambda>e. page (snd e)) bp @ [label it])"
    by metis
  note IH = Cons.IH [OF d1 g]
  show ?case
  proof (cases "p \<in> set (map fst bp)")
    case True
    with p have "hash_key (label it) \<in> Some ` set (map fst bp)" by simp
    with IH k1 p1 True show ?thesis by simp
  next
    case False
    with p have notin: "hash_key (label it) \<notin> Some ` set (map fst bp)" by auto
    have "set (map fst bp1) = insert p (set (map fst bp))"
      using k1 False by simp
    then have eq: "(\<lambda>l. hash_key l \<notin> Some ` fst ` set bp1) =
              (\<lambda>l. hash_key l \<notin> Some ` fst ` set bp \<and> hash_key l \<noteq> hash_key (label it))"
      using p by auto
    show ?thesis
      using IH p1 False notin by (simp add: eq)
  qed
qed

lemma cnt_step:
  assumes "distinct (map fst bp)" and "add_item bp it = Inr bp1"
  shows "cnt bp1 k = cnt bp k + (if hash_key (label it) = Some k then 1 else 0)"
proof -
  from add_item_step [OF assms]
  obtain p where p: "hash_key (label it) = Some p"
    and m: "\<And>k. map_of bp1 k =
           (if k = p then Some (bump (fileName it) (entry_or_new bp p it)) else map_of bp k)"
    by metis
  show ?thesis using p m [of k]
    by (auto simp: cnt_def entry_or_new_def split: option.splits)
qed

lemma smp_step:
  assumes "distinct (map fst bp)" and "add_item bp it = Inr bp1"
  shows "smp bp1 k =
         (if hash_key (label it) = Some k \<and> length (smp bp k) < 5 \<and> truthy (fileName it)
          then smp bp k @ [fileName it] else smp bp k)"
proof -
  from add_item_step [OF assms]
  obtain p where p: "hash_key (label it) = Some p"
    and m: "\<And>k. map_of bp1 k =
           (if k = p then Some (bump (fileName it) (entry_or_new bp p it)) else map_of bp k)"
    by metis
  show ?thesis using p m [of k]
    by (auto simp: smp_def entry_or_new_def split: option.splits)
qed

lemma group_items_cnt:
  assumes "distinct (map fst bp)" and "group_items bp its = Inr bp'"
  shows "cnt bp' k = cnt bp k + int (length (filter (\<lambda>it. hash_key (label it) = Some k) its))"
  using assms
proof (induction its arbitrary: bp)
  case Nil
  then show ?case by simp
next
  case (Cons it its)
  from Cons.prems(2) obtain bp1 where a: "add_item bp it = Inr bp1"
    and g: "group_items bp1 its = Inr bp'"
    by (auto simp: bnd_def split: sum.splits)
  from add_item_step [OF Cons.prems(1) a] have d1: "distinct (map fst bp1)" by metis
  from Cons.IH [OF d1 g] cnt_step [OF Cons.prems(1) a, of k] show ?case by simp
qed

lemma group_items_smp:
  assumes "distinct (map fst bp)" and "group_items bp its = Inr bp'"
    and "length (smp bp k) \<le> 5"
  shows "smp bp' k = take 5 (smp bp k @
           map fileName (filter (\<lambda>it. hash_key (label it) = Some k \<and> truthy (fileName it)) its))"
  using assms
proof (induction its arbitrary: bp)
  case Nil
  then show ?case by simp
next
  case (Cons it its)
  from Cons.prems(2) obtain bp1 where a: "add_item bp it = Inr bp1"
    and g: "group_items bp1 its = Inr bp'"
    by (auto simp: bnd_def split: sum.splits)
  from add_item_step [OF Cons.prems(1) a] have d1: "distinct (map fst bp1)" by metis
  note st = smp_step [OF Cons.prems(1) a, of k]
  show ?case
  proof (cases "hash_key (label it) = Some k \<and> truthy (fileName it)")
    case False
    with st have "smp bp1 k = smp bp k" by auto
    with Cons.IH [OF d1 g] Cons.prems(3) False show ?thesis by auto
  next
    case True
    show ?thesis
    proof (cases "length (smp bp k) < 5")
      case True
      with \<open>hash_key (label it) = Some k \<and> truthy (fileName it)\<close> st
      have "smp bp1 k = smp bp k @ [fileName it]" by simp
      with Cons.IH [OF d1 g] True \<open>hash_key (label it) = Some k \<and> truthy (fileName it)\<close>
      show ?thesis by simp
    next
      case False
      with Cons.prems(3) have five: "length (smp bp k) = 5" by simp
      from False st have "smp bp1 k = smp bp k" by simp
      with Cons.IH [OF d1 g] five show ?thesis by simp
    qed
  qed
qed

lemma add_item_map_of:
  assumes "hash_key (label it) = Some p"
  shows "\<exists>bp'. add_item bp it = Inr bp' \<and>
           (\<forall>k. map_of bp' k =
              (if k = p then Some (bump (fileName it) (entry_or_new bp p it)) else map_of bp k))"
proof (cases "map_of bp p")
  case None
  from add_item_new [OF assms None] None show ?thesis
    by (auto simp: entry_or_new_def map_add_def split: option.splits)
next
  case (Some s)
  let ?d = "\<lparr>page = label it, count = 0, samples = []\<rparr>"
  have sd: "setdefault bp p ?d = bp" using Some by (simp add: setdefault_def)
  show ?thesis using assms Some
    by (auto simp: add_item_def sd getitem_def bnd_def Let_def map_of_modify entry_or_new_def
        bump_def)
qed

lemma group_items_ok:
  assumes "list_all (\<lambda>it. hash_key (label it) \<noteq> None) its"
  shows "\<exists>bp'. group_items bp its = Inr bp'"
  using assms
proof (induction its arbitrary: bp)
  case Nil
  then show ?case by simp
next
  case (Cons it its)
  from Cons.prems obtain p where "hash_key (label it) = Some p" by auto
  from add_item_map_of [OF this, of bp] obtain bp1 where "add_item bp it = Inr bp1" by blast
  with Cons.IH [of bp1] Cons.prems show ?case by (simp add: bnd_def)
qed

section \<open>The scanning loops\<close>

lemma scan_tests_items:
  "scan_tests acc tests = Inr r \<Longrightarrow> r = acc @ List.map_filter entry_item tests"
proof (induction tests arbitrary: acc)
  case Nil
  then show ?case by simp
next
  case (Cons t tests)
  from Cons.prems obtain x where f: "failed_item t = Inr x"
    by (auto simp: bnd_def split: sum.splits)
  show ?case
  proof (cases x)
    case None
    with f Cons.prems have "scan_tests acc tests = Inr r" by (simp add: bnd_def)
    from Cons.IH [OF this] f None show ?thesis
      by (simp add: entry_item_def)
  next
    case (Some it)
    with f Cons.prems have "scan_tests (acc @ [it]) tests = Inr r" by (simp add: bnd_def)
    from Cons.IH [OF this] f Some show ?thesis
      by (simp add: entry_item_def)
  qed
qed

lemma scan_report_items:
  assumes "scan_report acc data = Inr r"
  shows "r = acc @ items_in_file (Loaded data)"
proof -
  from assms obtain t tests where t: "py_get data ''tests'' (JArr []) = Inr t"
    and i: "py_iter (py_or t (JArr [])) = Inr tests"
    and s: "scan_tests acc tests = Inr r"
    by (auto simp: scan_report_def bnd_def split: sum.splits)
  from scan_tests_items [OF s] t i show ?thesis
    by (simp add: items_in_file_def report_tests_def)
qed

lemma scan_files_items:
  "scan_files acc fs = Inr r \<Longrightarrow> r = acc @ concat (map items_in_file fs)"
proof (induction fs arbitrary: acc)
  case Nil
  then show ?case by simp
next
  case (Cons c fs)
  show ?case
  proof (cases c)
    case Unreadable
    with Cons show ?thesis by (simp add: items_in_file_def)
  next
    case (Loaded data)
    with Cons.prems obtain acc' where r: "scan_report acc data = Inr acc'"
      and f: "scan_files acc' fs = Inr r"
      by (auto simp: bnd_def split: sum.splits)
    from Cons.IH [OF f] scan_report_items [OF r] Loaded show ?thesis by simp
  qed
qed


lemma py_get_dict: "is_dict x \<Longrightarrow> py_get x k JNull = Inr (field x k)"
  by (cases x) (simp_all add: field_def)

lemma failed_item_not_failing:
  assumes "is_dict t" and "\<not> is_failing t"
  shows "failed_item t = Inr None"
  using assms by (simp add: failed_item_def py_get_dict bnd_def is_failing_def)

lemma scan_tests_no_failing:
  "list_all (\<lambda>t. is_dict t \<and> \<not> is_failing t) tests \<Longrightarrow> scan_tests acc tests = Inr acc"
  by (induction tests) (simp_all add: failed_item_not_failing bnd_def)

lemma report_ok_tests:
  assumes "report_ok data"
  shows "scan_report acc data = scan_tests acc (report_tests data)"
    and "list_all entry_ok (report_tests data)"
proof -
  from assms obtain kvs where d: "data = JObj kvs" by (cases data) (auto simp: report_ok_def)
  show "scan_report acc data = scan_tests acc (report_tests data)"
  proof (cases "map_of kvs ''tests''")
    case None
    with d show ?thesis by (simp add: scan_report_def report_tests_def bnd_def py_or_def)
  next
    case (Some v)
    show ?thesis
    proof (cases "truthy v")
      case False
      with d Some show ?thesis
        by (simp add: scan_report_def report_tests_def bnd_def py_or_def)
    next
      case True
      with assms d Some obtain ts where "v = JArr ts"
        by (cases v) (auto simp: report_ok_def field_def)
      with d Some True show ?thesis
        by (simp add: scan_report_def report_tests_def bnd_def py_or_def)
    qed
  qed
  show "list_all entry_ok (report_tests data)"
  proof (cases "map_of kvs ''tests''")
    case None
    with d show ?thesis by (simp add: report_tests_def py_or_def)
  next
    case (Some v)
    show ?thesis
    proof (cases "truthy v")
      case False
      with d Some show ?thesis by (simp add: report_tests_def py_or_def)
    next
      case True
      with assms d Some obtain ts where "v = JArr ts" and "list_all entry_ok ts"
        by (cases v) (auto simp: report_ok_def field_def)
      with d Some True show ?thesis by (simp add: report_tests_def py_or_def)
    qed
  qed
qed

lemma scan_files_no_failing:
  assumes "list_all (\<lambda>c. file_ok c \<and> no_failing_entry c) fs"
  shows "scan_files acc fs = Inr acc"
  using assms
proof (induction fs)
  case Nil
  then show ?case by simp
next
  case (Cons c fs)
  show ?case
  proof (cases c)
    case Unreadable
    with Cons show ?thesis by simp
  next
    case (Loaded data)
    with Cons.prems have ok: "report_ok data"
      and nf: "list_all (\<lambda>t. \<not> is_failing t) (report_tests data)"
      by (simp_all add: file_ok_def no_failing_entry_def)
    from report_ok_tests(2) [OF ok] nf
    have "list_all (\<lambda>t. is_dict t \<and> \<not> is_failing t) (report_tests data)"
      by (auto simp: list_all_iff entry_ok_def)
    then have "scan_report acc data = Inr acc"
      using report_ok_tests(1) [OF ok] scan_tests_no_failing by simp
    with Cons Loaded show ?thesis by (simp add: bnd_def)
  qed
qed

lemma report_files_filter:
  "report_files (filter P dir) = filter P (report_files dir)"
  by (simp add: report_files_def glob_json_def filter_sort conj_commute)

lemma scan_report_tests_missing:
  assumes "tests_missing (Loaded data)"
  shows "scan_report acc data = Inr acc"
proof -
  from assms obtain kvs where d: "data = JObj kvs" and f: "field data ''tests'' = JNull"
    by (cases data) (auto simp: tests_missing_def)
  from d f show ?thesis
    by (auto simp: scan_report_def bnd_def py_or_def field_def split: option.splits)
qed

lemma scan_files_skip_tests_missing:
  "scan_files acc (filter (\<lambda>c. \<not> tests_missing c) fs) = scan_files acc fs"
proof (induction fs arbitrary: acc)
  case Nil
  then show ?case by simp
next
  case (Cons c fs)
  show ?case
  proof (cases c)
    case Unreadable
    with Cons show ?thesis by (simp add: tests_missing_def)
  next
    case (Loaded data)
    with Cons show ?thesis
      by (cases "tests_missing (Loaded data)") (simp_all add: scan_report_tests_missing bnd_def)
  qed
qed

lemma failed_item_ok:
  assumes "entry_ok test"
  shows "\<exists>r. failed_item test = Inr r \<and> (\<forall>it. r = Some it \<longrightarrow> hash_key (label it) \<noteq> None)"
proof (cases "is_failing test")
  case False
  with assms show ?thesis by (simp add: failed_item_not_failing entry_ok_def)
next
  case True
  from assms obtain kvs where t: "test = JObj kvs" by (cases test) (auto simp: entry_ok_def)
  from True t have st: "py_get test ''status'' JNull = Inr (JStr ''fail'')"
    by (simp add: is_failing_def field_def)
  define pair where "pair = (case map_of kvs ''pair'' of None \<Rightarrow> JObj [] | Some v \<Rightarrow> v)"
  have pg: "py_get test ''pair'' (JObj []) = Inr pair" using t by (simp add: pair_def)
  have pok: "pair_ok pair"
  proof (cases "map_of kvs ''pair''")
    case None
    then show ?thesis by (simp add: pair_def pair_ok_def field_def)
  next
    case (Some v)
    with assms True t show ?thesis
      by (simp add: entry_ok_def has_field_def field_def pair_def)
  qed
  then obtain pk where p: "pair = JObj pk" by (cases pair) (auto simp: pair_ok_def)
  have g: "py_get pair k JNull = Inr (field pair k)" for k
    using p by (simp add: field_def)
  from pok have "is_dict (py_or (field pair ''diff'') (JObj []))"
    by (auto simp: pair_ok_def py_or_def)
  then obtain dk where d: "py_or (field pair ''diff'') (JObj []) = JObj dk"
    by (cases "py_or (field pair ''diff'') (JObj [])") auto
  from pok have "hash_key (py_or (field pair ''label'') (JStr ''unknown'')) \<noteq> None"
    by (auto simp: pair_ok_def py_or_def)
  then show ?thesis
    by (simp add: failed_item_def st pg g d bnd_def)
qed

lemma scan_tests_ok:
  assumes "list_all entry_ok tests"
  shows "\<exists>its. scan_tests acc tests = Inr (acc @ its) \<and>
               list_all (\<lambda>it. hash_key (label it) \<noteq> None) its"
  using assms
proof (induction tests arbitrary: acc)
  case Nil
  then show ?case by simp
next
  case (Cons t tests)
  from Cons.prems have "entry_ok t" and rest: "list_all entry_ok tests" by simp_all
  from failed_item_ok [OF this(1)] obtain r where r: "failed_item t = Inr r"
    and h: "\<And>it. r = Some it \<Longrightarrow> hash_key (label it) \<noteq> None" by blast
  show ?case
  proof (cases r)
    case None
    with r Cons.IH [OF rest, of acc] show ?thesis by (simp add: bnd_def)
  next
    case (Some it)
    from Cons.IH [OF rest, of "acc @ [it]"] obtain its
      where "scan_tests (acc @ [it]) tests = Inr ((acc @ [it]) @ its)"
        and "list_all (\<lambda>it. hash_key (label it) \<noteq> None) its" by blast
    with r Some h [OF Some] show ?thesis
      by (intro exI [of _ "it # its"]) (simp add: bnd_def)
  qed
qed

lemma scan_files_ok:
  assumes "list_all file_ok fs"
  shows "\<exists>its. scan_files acc fs = Inr (acc @ its) \<and>
               list_all (\<lambda>it. hash_key (label it) \<noteq> None) its"
  using assms
proof (induction fs arbitrary: acc)
  case Nil
  then show ?case by simp
next
  case (Cons c fs)
  from Cons.prems have rest: "list_all file_ok fs" by simp
  show ?case
  proof (cases c)
    case Unreadable
    with Cons.IH [OF rest, of acc] show ?thesis by simp
  next
    case (Loaded data)
    with Cons.prems have ok: "report_ok data" by (simp add: file_ok_def)
    from scan_tests_ok [OF report_ok_tests(2) [OF ok], of acc] report_ok_tests(1) [OF ok, of acc]
    obtain its1 where s1: "scan_report acc data = Inr (acc @ its1)"
      and h1: "list_all (\<lambda>it. hash_key (label it) \<noteq> None) its1" by auto
    from Cons.IH [OF rest, of "acc @ its1"] obtain its2
      where s2: "scan_files (acc @ its1) fs = Inr ((acc @ its1) @ its2)"
        and h2: "list_all (\<lambda>it. hash_key (label it) \<noteq> None) its2" by blast
    from Loaded s1 s2 h1 h2 show ?thesis
      by (intro exI [of _ "its1 @ its2"]) (simp add: bnd_def)
  qed
qed

section \<open>The aggregate\<close>

lemma failed_items_empty: "report_files dir = [] \<Longrightarrow> failed_items dir = []"
  by (simp add: failed_items_def)

lemma collect_diffs_Inr:
  assumes "collect_diffs dir w = (Inr s, w')"
  obtains bp where "group_items [] (failed_items dir) = Inr bp"
    and "s = \<lparr>pages = map snd bp, totalFailed = int (length (failed_items dir))\<rparr>"
proof (cases "report_files dir = []")
  case True
  with assms have "s = \<lparr>pages = [], totalFailed = 0\<rparr>"
    by (simp add: collect_diffs_def)
  with True show thesis
    by (intro that [of "[]"]) (simp_all add: failed_items_empty)
next
  case False
  with assms obtain its bp where sc: "scan_files [] (map snd (report_files dir)) = Inr its"
    and g: "group_items [] its = Inr bp"
    and s: "s = \<lparr>pages = map snd bp, totalFailed = int (length its)\<rparr>"
    by (auto simp: collect_diffs_def Let_def write_summary_def split: sum.splits if_splits)
  from scan_files_items [OF sc] have "its = failed_items dir"
    by (simp add: failed_items_def comp_def)
  with g s show thesis by (intro that [of bp]) simp_all
qed

lemma group_items_entry:
  assumes "group_items [] its = Inr bp" and "ps \<in> set (map snd bp)"
  shows "count ps = int (length (filter (\<lambda>it. same_page (label it) (page ps)) its))"
    and "samples ps = take 5 (map fileName
           (filter (\<lambda>it. same_page (label it) (page ps) \<and> truthy (fileName it)) its))"
proof -
  from assms(2) obtain k where k: "(k, ps) \<in> set bp" by auto
  from group_items_keyed [OF _ assms(1)] have ky: "keyed bp" by simp
  with k have hk: "hash_key (page ps) = Some k" and m: "map_of bp k = Some ps"
    by (auto simp: keyed_def)
  from m have c: "cnt bp k = count ps" and sm: "smp bp k = samples ps"
    by (simp_all add: cnt_def smp_def)
  from group_items_cnt [OF _ assms(1), of k] c hk
  show "count ps = int (length (filter (\<lambda>it. same_page (label it) (page ps)) its))"
    by (simp add: cnt_def same_page_def)
  from group_items_smp [OF _ assms(1), of k] sm hk
  show "samples ps = take 5 (map fileName
           (filter (\<lambda>it. same_page (label it) (page ps) \<and> truthy (fileName it)) its))"
    by (simp add: smp_def same_page_def)
qed

lemma collect_diffs_skip:
  assumes skip: "\<And>acc fs. scan_files acc (filter Q fs) = scan_files acc fs"
    and "out_writable w"
  shows "fst (collect_diffs (filter (\<lambda>e. Q (snd e)) dir) w) = fst (collect_diffs dir w)"
proof -
  let ?files = "report_files dir"
  let ?files' = "report_files (filter (\<lambda>e. Q (snd e)) dir)"
  have f': "map snd ?files' = filter Q (map snd ?files)"
    by (simp add: report_files_filter filter_map comp_def)
  then have sc: "scan_files [] (map snd ?files') = scan_files [] (map snd ?files)"
    by (simp add: skip)
  show ?thesis
  proof (cases "?files' = []")
    case False
    then have "?files \<noteq> []" by (auto simp: report_files_filter)
    with False sc show ?thesis by (simp add: collect_diffs_def)
  next
    case True
    show ?thesis
    proof (cases "?files = []")
      case True
      with \<open>?files' = []\<close> show ?thesis by (simp add: collect_diffs_def)
    next
      case False
      from sc True have "scan_files [] (map snd ?files) = Inr []" by simp
      with True False assms(2) show ?thesis
        by (simp add: collect_diffs_def write_summary_def Let_def)
    qed
  qed
qed

lemma collect_diffs_returns:
  assumes "list_all (\<lambda>e. file_ok (snd e)) (report_files dir)" and "out_writable w"
  shows "\<exists>s w'. collect_diffs dir w = (Inr s, w')"
proof -
  from assms(1) have "list_all file_ok (map snd (report_files dir))"
    by (simp add: list_all_iff)
  from scan_files_ok [OF this, of "[]"] obtain its
    where s: "scan_files [] (map snd (report_files dir)) = Inr its"
      and h: "list_all (\<lambda>it. hash_key (label it) \<noteq> None) its" by auto
  from group_items_ok [OF h, of "[]"] obtain bp where g: "group_items [] its = Inr bp" by blast
  from s g assms(2) show ?thesis
    by (simp add: collect_diffs_def Let_def write_summary_def)
qed

lemma collect_diffs_persists:
  assumes "report_files dir \<noteq> []" and "collect_diffs dir w = (Inr s, w')"
  shows "out_file w' = Some s"
  using assms
  by (auto simp: collect_diffs_def Let_def write_summary_def split: sum.splits if_splits)

lemma main_persists:
  assumes "main a e = (Returned, steps, w')"
  shows "\<exists>s w1. collect_diffs (reports e) (out e) = (Inr s, w1) \<and> out_file w' = Some s"
  using assms
  by (auto simp: main_def Let_def write_summary_def split: sum.splits if_splits prod.splits)

lemma hash_key_KStr: "hash_key x = Some (KStr s) \<Longrightarrow> x = JStr s"
  by (cases x) (auto split: if_splits)

lemma entry_in_failed_items:
  assumes "(n, Loaded data) \<in> set (report_files dir)" and "test \<in> set (report_tests data)"
    and "failed_item test = Inr (Some it)"
  shows "it \<in> set (failed_items dir)"
proof -
  from assms(3) have "entry_item test = Some it" by (simp add: entry_item_def)
  with assms(2) have "it \<in> set (items_in_file (Loaded data))"
    by (force simp: items_in_file_def List.map_filter_def)
  with assms(1) show ?thesis by (force simp: failed_items_def)
qed

lemma collected_item_has_page:
  assumes "collect_diffs dir w = (Inr s, w')" and "it \<in> set (failed_items dir)"
  shows "\<exists>ps \<in> set (pages s). same_page (page ps) (label it) \<and>
           count ps = int (length (items_of_page (label it) dir)) \<and>
           samples ps = take 5 (map fileName
             (filter (\<lambda>i. truthy (fileName i)) (items_of_page (label it) dir)))"
proof -
  from collect_diffs_Inr [OF assms(1)] obtain bp
    where g: "group_items [] (failed_items dir) = Inr bp"
      and s: "s = \<lparr>pages = map snd bp, totalFailed = int (length (failed_items dir))\<rparr>"
    by metis
  from group_items_keyed [OF _ g] have ky: "keyed bp" by simp
  obtain k where k: "hash_key (label it) = Some k"
  proof (cases "hash_key (label it)")
    case None
    from assms(2) obtain xs ys where sp: "failed_items dir = xs @ it # ys"
      by (auto simp: in_set_conv_decomp)
    have "\<And>bp0. group_items bp0 (xs @ it # ys) \<noteq> Inr bp"
    proof (induction xs)
      case Nil
      show ?case by (simp add: add_item_unhashable [OF None] bnd_def)
    next
      case (Cons x xs)
      show ?case using Cons.IH by (auto simp: bnd_def split: sum.splits)
    qed
    with g sp show ?thesis by simp
  qed
  from group_items_cnt [OF _ g, of k] assms(2) k
  have "0 < cnt bp k"
    by (auto simp: cnt_def filter_empty_conv)
  then obtain ps where m: "map_of bp k = Some ps"
    by (cases "map_of bp k") (auto simp: cnt_def)
  then have mem: "(k, ps) \<in> set bp" by (rule map_of_SomeD)
  then have ps: "ps \<in> set (map snd bp)" by force
  from ky mem have hp: "hash_key (page ps) = Some k" by (auto simp: keyed_def)
  with k have sp: "same_page (page ps) (label it)" by (simp add: same_page_def)
  have eq: "(\<lambda>i. same_page (label i) (page ps)) = (\<lambda>i. same_page (label i) (label it))"
    using hp k by (simp add: same_page_def)
  from group_items_entry(1) [OF g ps]
  have c: "count ps = int (length (items_of_page (label it) dir))"
    by (simp add: items_of_page_def eq)
  have "filter (\<lambda>i. same_page (label i) (page ps) \<and> truthy (fileName i)) (failed_items dir) =
        filter (\<lambda>i. truthy (fileName i)) (items_of_page (label it) dir)"
    unfolding items_of_page_def filter_filter
    by (rule filter_cong) (auto simp: same_page_def hp k)
  with group_items_entry(2) [OF g ps]
  have sm: "samples ps = take 5 (map fileName
             (filter (\<lambda>i. truthy (fileName i)) (items_of_page (label it) dir)))"
    by simp
  from ps s sp c sm show ?thesis by auto
qed

lemma unknown_page_of_item:
  assumes "collect_diffs dir w = (Inr s, w')" and "it \<in> set (failed_items dir)"
    and "label it = JStr ''unknown''"
  shows "it \<in> set (items_of_page (JStr ''unknown'') dir) \<and>
         (\<exists>ps \<in> set (pages s). page ps = JStr ''unknown'' \<and>
            count ps = int (length (items_of_page (JStr ''unknown'') dir)) \<and> 1 \<le> count ps \<and>
            samples ps = take 5 (map fileName
              (filter (\<lambda>i. truthy (fileName i)) (items_of_page (JStr ''unknown'') dir))))"
proof -
  from assms(2,3) have mem: "it \<in> set (items_of_page (JStr ''unknown'') dir)"
    by (simp add: items_of_page_def same_page_def)
  then have pos: "0 < length (items_of_page (JStr ''unknown'') dir)"
    by (rule length_pos_if_in_set)
  from collected_item_has_page [OF assms(1,2)] assms(3)
  obtain ps where in_pages: "ps \<in> set (pages s)"
    and sp: "same_page (page ps) (JStr ''unknown'')"
    and c: "count ps = int (length (items_of_page (JStr ''unknown'') dir))"
    and sm: "samples ps = take 5 (map fileName
              (filter (\<lambda>i. truthy (fileName i)) (items_of_page (JStr ''unknown'') dir)))"
    by auto
  from sp have pg: "page ps = JStr ''unknown''"
    by (intro hash_key_KStr) (simp add: same_page_def)
  from pos have "1 \<le> int (length (items_of_page (JStr ''unknown'') dir))" by linarith
  with c have one: "1 \<le> count ps" by simp
  from in_pages pg c one sm
  have "\<exists>ps \<in> set (pages s). page ps = JStr ''unknown'' \<and>
            count ps = int (length (items_of_page (JStr ''unknown'') dir)) \<and> 1 \<le> count ps \<and>
            samples ps = take 5 (map fileName
              (filter (\<lambda>i. truthy (fileName i)) (items_of_page (JStr ''unknown'') dir)))"
    by (intro bexI [of _ ps]) simp_all
  with mem show ?thesis by simp
qed

lemma group_items_extra_item:
  assumes "group_items [] (xs @ it # ys) = Inr bp1" and "group_items [] (xs @ ys) = Inr bp0"
  shows "cnt bp1 k = cnt bp0 k + (if hash_key (label it) = Some k then 1 else 0)"
    and "\<not> truthy (fileName it) \<Longrightarrow> smp bp1 k = smp bp0 k"
proof -
  from group_items_cnt [OF _ assms(1), of k] group_items_cnt [OF _ assms(2), of k]
  show "cnt bp1 k = cnt bp0 k + (if hash_key (label it) = Some k then 1 else 0)"
    by (simp add: cnt_def)
  assume "\<not> truthy (fileName it)"
  with group_items_smp [OF _ assms(1), of k] group_items_smp [OF _ assms(2), of k]
  show "smp bp1 k = smp bp0 k" by (simp add: smp_def)
qed

lemma pairless_item_step:
  assumes "is_dict test" and "is_failing test" and "\<not> has_field test ''pair''"
  shows "failed_item test = Inr (Some unknown_item) \<and>
         (\<exists>bp'. add_item bp unknown_item = Inr bp' \<and>
            cnt bp' (KStr ''unknown'') = cnt bp (KStr ''unknown'') + 1 \<and>
            smp bp' (KStr ''unknown'') = smp bp (KStr ''unknown'') \<and>
            (\<forall>k. k \<noteq> KStr ''unknown'' \<longrightarrow> map_of bp' k = map_of bp k))"
proof -
  from assms(1) obtain kvs where t: "test = JObj kvs" by (cases test) auto
  from assms(2) t have st: "py_get test ''status'' JNull = Inr (JStr ''fail'')"
    by (simp add: is_failing_def field_def)
  from assms(3) t have pr: "py_get test ''pair'' (JObj []) = Inr (JObj [])"
    by (simp add: has_field_def)
  have 1: "failed_item test = Inr (Some unknown_item)"
    by (simp add: failed_item_def st pr bnd_def py_or_def unknown_item_def)
  have "hash_key (label unknown_item) = Some (KStr ''unknown'')"
    by (simp add: unknown_item_def)
  from add_item_map_of [OF this, of bp] obtain bp'
    where a: "add_item bp unknown_item = Inr bp'"
      and m: "\<And>k. map_of bp' k =
              (if k = KStr ''unknown''
               then Some (bump (fileName unknown_item) (entry_or_new bp (KStr ''unknown'') unknown_item))
               else map_of bp k)"
    by blast
  have c: "cnt bp' (KStr ''unknown'') = cnt bp (KStr ''unknown'') + 1"
    using m [of "KStr ''unknown''"]
    by (simp add: cnt_def entry_or_new_def split: option.splits)
  have s: "smp bp' (KStr ''unknown'') = smp bp (KStr ''unknown'')"
    using m [of "KStr ''unknown''"]
    by (simp add: smp_def entry_or_new_def unknown_item_def split: option.splits)
  from 1 a c s m show ?thesis by auto
qed

lemma falsy_label_fields:
  assumes "failed_item test = Inr (Some it)"
  shows "(has_field (field test ''pair'') ''label'' \<and> \<not> truthy (field (field test ''pair'') ''label'')
            \<longrightarrow> label it = JStr ''unknown'' \<and> hash_key (label it) = Some (KStr ''unknown'')) \<and>
         (\<not> has_field (field test ''pair'') ''label''
            \<longrightarrow> label it = JStr ''unknown'' \<and> hash_key (label it) = Some (KStr ''unknown'')) \<and>
         (has_field (field test ''pair'') ''url'' \<and> \<not> truthy (field (field test ''pair'') ''url'')
            \<longrightarrow> url it = JStr []) \<and>
         (\<not> has_field (field test ''pair'') ''url'' \<longrightarrow> url it = JStr [])"
proof -
  from assms obtain kvs where t: "test = JObj kvs"
    by (cases test) (auto simp: failed_item_def bnd_def)
  from assms t have st: "field test ''status'' = JStr ''fail''"
    by (auto simp: failed_item_def bnd_def field_def split: if_splits)
  define pair where "pair = (case map_of kvs ''pair'' of None \<Rightarrow> JObj [] | Some v \<Rightarrow> v)"
  from assms t st obtain pk where p: "pair = JObj pk"
    by (cases pair) (auto simp: failed_item_def bnd_def field_def pair_def split: if_splits)
  have f: "field (field test ''pair'') k = field pair k" for k
    using t by (auto simp: field_def pair_def split: option.splits)
  have h: "has_field (field test ''pair'') k \<Longrightarrow> has_field pair k" for k
    using t by (auto simp: has_field_def field_def pair_def split: option.splits json.splits)
  from assms t st p have l: "label it = py_or (field pair ''label'') (JStr ''unknown'')"
    and u: "url it = py_or (field pair ''url'') (JStr [])"
    by (auto simp: failed_item_def bnd_def field_def pair_def [symmetric] split: if_splits sum.splits)
  have nl: "\<not> has_field (field test ''pair'') k \<Longrightarrow> field pair k = JNull" for k
    using t p by (auto simp: has_field_def field_def pair_def split: option.splits json.splits)
  show ?thesis
    using l u nl by (auto simp: f py_or_def)
qed

lemma failed_item_dict:
  assumes "is_dict test" and "field test ''status'' = JStr ''fail''"
    and "pair = (if has_field test ''pair'' then field test ''pair'' else JObj [])"
    and "is_dict pair"
  shows "failed_item test =
         (if \<not> truthy (field pair ''diff'') \<or> is_dict (field pair ''diff'')
          then Inr (Some \<lparr>label = py_or (field pair ''label'') (JStr ''unknown''),
                          url = py_or (field pair ''url'') (JStr []),
                          fileName = field pair ''fileName'',
                          mismatch = field (py_or (field pair ''diff'') (JObj []))
                                       ''misMatchPercentage'',
                          selectors = field pair ''selectors''\<rparr>)
          else Inl AttributeError)"
proof -
  from assms(1) obtain kvs where t: "test = JObj kvs" by (cases test) auto
  from assms(2) t have st: "py_get test ''status'' JNull = Inr (JStr ''fail'')"
    by (simp add: field_def)
  from assms(3) t have pg: "py_get test ''pair'' (JObj []) = Inr pair"
    by (auto simp: has_field_def field_def split: option.splits)
  have g: "py_get pair k JNull = Inr (field pair k)" for k
    using assms(4) by (rule py_get_dict)
  show ?thesis
  proof (cases "\<not> truthy (field pair ''diff'') \<or> is_dict (field pair ''diff'')")
    case True
    then have "is_dict (py_or (field pair ''diff'') (JObj []))" by (auto simp: py_or_def)
    from py_get_dict [OF this] True show ?thesis
      by (simp add: failed_item_def st pg g bnd_def)
  next
    case False
    then have tr: "truthy (field pair ''diff'')" and nd: "\<not> is_dict (field pair ''diff'')"
      by simp_all
    from nd have "py_get (field pair ''diff'') ''misMatchPercentage'' JNull = Inl AttributeError"
      by (cases "field pair ''diff''") simp_all
    with tr False show ?thesis
      by (simp add: failed_item_def st pg g bnd_def py_or_def)
  qed
qed

lemma failed_item_Some_dict:
  assumes "failed_item test = Inr (Some it)"
  shows "is_dict test" and "field test ''status'' = JStr ''fail''"
    and "is_dict (if has_field test ''pair'' then field test ''pair'' else JObj [])"
proof -
  from assms obtain kvs where t: "test = JObj kvs"
    by (cases test) (auto simp: failed_item_def bnd_def)
  then show "is_dict test" by simp
  from assms t show st: "field test ''status'' = JStr ''fail''"
    by (auto simp: failed_item_def bnd_def field_def split: if_splits)
  define pair where "pair = (case map_of kvs ''pair'' of None \<Rightarrow> JObj [] | Some v \<Rightarrow> v)"
  from assms t st have "is_dict pair"
    by (cases pair) (auto simp: failed_item_def bnd_def field_def pair_def split: if_splits)
  moreover have "pair = (if has_field test ''pair'' then field test ''pair'' else JObj [])"
    using t by (auto simp: pair_def has_field_def field_def split: option.splits)
  ultimately show "is_dict (if has_field test ''pair'' then field test ''pair'' else JObj [])"
    by simp
qed

lemma not_dict_field: "\<not> is_dict x \<Longrightarrow> \<not> has_field x k"
  by (cases x) (simp_all add: has_field_def)

lemma dict_field_present: "is_dict (field x k) \<Longrightarrow> has_field x k"
  by (cases x) (auto simp: has_field_def field_def split: option.splits)

lemma collect_diffs_writable:
  "collect_diffs dir w = (r, w') \<Longrightarrow> out_writable w' = out_writable w"
  by (auto simp: collect_diffs_def Let_def write_summary_def split: sum.splits if_splits)

section \<open>Runs of the model\<close>

lemma run_bare_call_on_empty_directory:
  "report_files [] = [] \<and>
   out_file stale_world = Some example_summary \<and>
   collect_diffs [] stale_world = (Inr \<lparr>pages = [], totalFailed = 0\<rparr>, stale_world) \<and>
   out_file (snd (collect_diffs [] stale_world)) \<noteq> Some \<lparr>pages = [], totalFailed = 0\<rparr>"
  by (simp add: collect_diffs_def report_files_def glob_json_def stale_world_def
      example_summary_def)

lemma run_seven_failures:
  "fst (collect_diffs pricing_dir example_world) =
     Inr \<lparr>pages = [\<lparr>page = JStr ''pricing'', count = 7,
                      samples = [JStr ''f1.png'', JStr ''f2.png'', JStr ''f3.png'',
                                 JStr ''f4.png'', JStr ''f5.png'']\<rparr>],
          totalFailed = 7\<rparr>"
  by code_simp

lemma run_equal_keys:
  "fst (collect_diffs
          (one_report (JObj [(''tests'', JArr [labelled_entry (JBool True),
                                               labelled_entry (JInt 1)])]))
          example_world) =
     Inr \<lparr>pages = [\<lparr>page = JBool True, count = 2, samples = []\<rparr>], totalFailed = 2\<rparr>"
  by code_simp

lemma run_pair_null:
  "fst (collect_diffs
          (one_report (JObj [(''tests'',
             JArr [JObj [(''status'', JStr ''fail''), (''pair'', JNull)]])]))
          example_world) = Inl AttributeError"
  by code_simp

lemma run_top_level_list:
  "fst (collect_diffs (one_report (JArr [])) example_world) = Inl AttributeError"
  by code_simp

lemma run_tests_number:
  "fst (collect_diffs (one_report (JObj [(''tests'', JInt 3)])) example_world) = Inl TypeError"
  by code_simp

lemma run_label_list:
  "fst (collect_diffs
          (one_report (JObj [(''tests'', JArr [labelled_entry (JArr [JStr ''home''])])]))
          example_world) = Inl TypeError"
  by code_simp

lemma run_unwritable:
  "fst (collect_diffs example_dir \<lparr>out_writable = False, out_file = None\<rparr>) = Inl OSError"
  by code_simp

section \<open>Properties of the aggregate\<close>

text \<open>
  C1. Whenever \<open>collect_diffs\<close> returns an aggregate, \<open>totalFailed\<close> is the sum of the
  \<open>count\<close> fields of its page summaries, and it is the number of failed items collected.
\<close>

theorem totalFailed_is_sum_of_counts:
  assumes "collect_diffs dir w = (Inr s, w')"
  shows "totalFailed s = sum_list (map count (pages s)) \<and>
         totalFailed s = int (length (failed_items dir))"
proof -
  from collect_diffs_Inr [OF assms] obtain bp
    where g: "group_items [] (failed_items dir) = Inr bp"
      and s: "s = \<lparr>pages = map snd bp, totalFailed = int (length (failed_items dir))\<rparr>"
    by metis
  from group_items_total [OF _ g] have "total bp = int (length (failed_items dir))"
    by (simp add: total_def)
  with s show ?thesis by (simp add: total_def comp_def)
qed

theorem totalFailed_is_sum_of_counts_witness:
  "collect_diffs example_dir example_world = (Inr example_summary, example_world_after) \<and>
   totalFailed example_summary = sum_list (map count (pages example_summary)) \<and>
   totalFailed example_summary = int (length (failed_items example_dir)) \<and>
   totalFailed example_summary = 4"
proof -
  have run: "collect_diffs example_dir example_world = (Inr example_summary, example_world_after)"
    by code_simp
  have "totalFailed example_summary = 4" by (simp add: example_summary_def)
  with run totalFailed_is_sum_of_counts [OF run] show ?thesis by simp
qed

text \<open>
  C2. In every page summary of the aggregate, \<open>samples\<close> has at most 5 entries and
  \<open>count\<close> is the number of failed items of that page; when \<open>count\<close> is below 5 and every
  failed item of the page has a file name that Python takes for true, \<open>samples\<close> has
  \<open>count\<close> entries.
\<close>

theorem samples_bounded_count_exact:
  assumes "collect_diffs dir w = (Inr s, w')" and "ps \<in> set (pages s)"
  shows "length (samples ps) \<le> 5 \<and>
         count ps = int (length (items_of_page (page ps) dir)) \<and>
         (count ps < 5 \<and> (\<forall>it \<in> set (items_of_page (page ps) dir). truthy (fileName it))
            \<longrightarrow> int (length (samples ps)) = count ps)"
proof -
  from collect_diffs_Inr [OF assms(1)] obtain bp
    where g: "group_items [] (failed_items dir) = Inr bp"
      and s: "s = \<lparr>pages = map snd bp, totalFailed = int (length (failed_items dir))\<rparr>"
    by metis
  from assms(2) s have ps: "ps \<in> set (map snd bp)" by simp
  note c = group_items_entry(1) [OF g ps] and sm = group_items_entry(2) [OF g ps]
  have len: "length (samples ps) \<le> 5" using sm by simp
  have cnt: "count ps = int (length (items_of_page (page ps) dir))"
    using c by (simp add: items_of_page_def)
  have "int (length (samples ps)) = count ps"
    if lt: "count ps < 5"
      and all: "\<forall>it \<in> set (items_of_page (page ps) dir). truthy (fileName it)"
  proof -
    have "filter (\<lambda>it. same_page (label it) (page ps) \<and> truthy (fileName it)) (failed_items dir)
          = items_of_page (page ps) dir"
      unfolding items_of_page_def using all
      by (intro filter_cong) (auto simp: items_of_page_def)
    with sm have "samples ps = take 5 (map fileName (items_of_page (page ps) dir))" by simp
    with cnt lt show ?thesis by simp
  qed
  with len cnt show ?thesis by blast
qed

theorem samples_bounded_count_exact_witness:
  "collect_diffs example_dir example_world = (Inr example_summary, example_world_after) \<and>
   home_page \<in> set (pages example_summary) \<and>
   count home_page < 5 \<and>
   list_all (\<lambda>it. truthy (fileName it)) (items_of_page (page home_page) example_dir) \<and>
   length (samples home_page) \<le> 5 \<and>
   count home_page = int (length (items_of_page (page home_page) example_dir)) \<and>
   int (length (samples home_page)) = count home_page"
proof -
  have run: "collect_diffs example_dir example_world = (Inr example_summary, example_world_after)"
    by code_simp
  have mem: "home_page \<in> set (pages example_summary)" by (simp add: example_summary_def)
  have lt: "count home_page < 5" by (simp add: home_page_def)
  have all: "list_all (\<lambda>it. truthy (fileName it)) (items_of_page (page home_page) example_dir)"
    by code_simp
  then have "\<forall>it \<in> set (items_of_page (page home_page) example_dir). truthy (fileName it)"
    by (simp add: list_all_iff)
  with samples_bounded_count_exact [OF run mem] run mem lt all show ?thesis by blast
qed

text \<open>
  C3. The page summaries of the aggregate carry the labels of the failed items in the
  order of their first occurrence, the failed items being those of the report files taken in
  sorted order of their names and, inside a file, in the order of its test entries.
\<close>

theorem pages_in_first_occurrence_order:
  assumes "collect_diffs dir w = (Inr s, w')"
  shows "map page (pages s) = first_occurrences_by hash_key (map label (failed_items dir)) \<and>
         failed_items dir = concat (map (\<lambda>e. items_in_file (snd e)) (report_files dir)) \<and>
         sorted (map fst (report_files dir)) \<and>
         set (report_files dir) = {e \<in> set dir. matches_json (fst e)}"
proof -
  from collect_diffs_Inr [OF assms] obtain bp
    where g: "group_items [] (failed_items dir) = Inr bp"
      and s: "s = \<lparr>pages = map snd bp, totalFailed = int (length (failed_items dir))\<rparr>"
    by metis
  from group_items_pages [OF _ g] s
  have "map page (pages s) = first_occurrences_by hash_key (map label (failed_items dir))"
    by (simp add: comp_def)
  moreover have "sorted (map fst (report_files dir))"
    by (simp add: report_files_def)
  moreover have "set (report_files dir) = {e \<in> set dir. matches_json (fst e)}"
    by (auto simp: report_files_def glob_json_def)
  ultimately show ?thesis by (simp add: failed_items_def)
qed

theorem pages_in_first_occurrence_order_witness:
  "collect_diffs example_dir example_world = (Inr example_summary, example_world_after) \<and>
   map page (pages example_summary) = [JStr ''home'', JStr ''unknown'', JStr ''pricing''] \<and>
   map page (pages example_summary) =
     first_occurrences_by hash_key (map label (failed_items example_dir)) \<and>
   map fst (report_files example_dir) = [''a.json'', ''b.json'', ''c.json'', ''d.json'']"
proof -
  have run: "collect_diffs example_dir example_world = (Inr example_summary, example_world_after)"
    by code_simp
  have p: "map page (pages example_summary) = [JStr ''home'', JStr ''unknown'', JStr ''pricing'']"
    by (simp add: example_summary_def home_page_def)
  have f: "map fst (report_files example_dir) = [''a.json'', ''b.json'', ''c.json'', ''d.json'']"
    by code_simp
  from pages_in_first_occurrence_order [OF run] run p f show ?thesis by simp
qed

text \<open>
  C4. When no report file holds a test entry with status \<open>"fail"\<close>, the report files
  being unreadable or of the shape the tool writes, \<open>collect_diffs\<close> returns the aggregate
  with no page and \<open>totalFailed = 0\<close>; this covers the directory without report file.
\<close>

theorem no_failures_empty_aggregate:
  assumes "\<forall>e \<in> set (report_files dir). file_ok (snd e) \<and> no_failing_entry (snd e)"
    and "report_files dir = [] \<or> out_writable w"
  shows "fst (collect_diffs dir w) = Inr \<lparr>pages = [], totalFailed = 0\<rparr>"
proof (cases "report_files dir = []")
  case True
  then show ?thesis by (simp add: collect_diffs_def)
next
  case False
  from assms(1) have "list_all (\<lambda>c. file_ok c \<and> no_failing_entry c) (map snd (report_files dir))"
    by (simp add: list_all_iff)
  then have "scan_files [] (map snd (report_files dir)) = Inr []"
    by (rule scan_files_no_failing)
  with False assms(2) show ?thesis
    by (simp add: collect_diffs_def write_summary_def Let_def)
qed

theorem no_failures_empty_aggregate_witness:
  "list_all (\<lambda>e. file_ok (snd e) \<and> no_failing_entry (snd e)) (report_files quiet_dir) \<and>
   report_files quiet_dir \<noteq> [] \<and> out_writable example_world \<and>
   fst (collect_diffs quiet_dir example_world) = Inr \<lparr>pages = [], totalFailed = 0\<rparr> \<and>
   fst (collect_diffs [] example_world) = Inr \<lparr>pages = [], totalFailed = 0\<rparr>"
proof -
  have h: "list_all (\<lambda>e. file_ok (snd e) \<and> no_failing_entry (snd e)) (report_files quiet_dir)"
    by code_simp
  then have h1: "\<forall>e \<in> set (report_files quiet_dir). file_ok (snd e) \<and> no_failing_entry (snd e)"
    by (simp add: list_all_iff)
  have ne: "report_files quiet_dir \<noteq> []" by code_simp
  have w: "out_writable example_world" by (simp add: example_world_def)
  then have h2: "report_files quiet_dir = [] \<or> out_writable example_world" by simp
  have e1: "\<forall>e \<in> set (report_files []). file_ok (snd e) \<and> no_failing_entry (snd e)"
    by (simp add: report_files_def glob_json_def)
  have e2: "report_files [] = [] \<or> out_writable example_world"
    by (simp add: report_files_def glob_json_def)
  from no_failures_empty_aggregate [OF h1 h2] no_failures_empty_aggregate [OF e1 e2] h ne w
  show ?thesis by simp
qed



text \<open>
  C6. A failing test entry without \<open>pair\<close> key gives the item with label
  \<open>"unknown"\<close>, url \<open>""\<close> and no file name, and the scan appends that item. Grouping it
  adds 1 to the count of the page \<open>"unknown"\<close> and leaves its samples and every other page
  as they are, in one step of the loop and in the whole grouping. In the aggregate that
  \<open>collect_diffs\<close> returns for a directory holding such an entry, the page \<open>"unknown"\<close>
  exists, its count is the number of items of that page, this one among them, and its
  samples are file names of the other items only.
\<close>

theorem pairless_entry_counts_as_unknown:
  assumes "is_dict test" and "is_failing test" and "\<not> has_field test ''pair''"
  shows "failed_item test = Inr (Some unknown_item) \<and>
         scan_tests acc (test # tests) = scan_tests (acc @ [unknown_item]) tests \<and>
         (\<exists>bp'. add_item bp unknown_item = Inr bp' \<and>
            cnt bp' (KStr ''unknown'') = cnt bp (KStr ''unknown'') + 1 \<and>
            smp bp' (KStr ''unknown'') = smp bp (KStr ''unknown'') \<and>
            (\<forall>k. k \<noteq> KStr ''unknown'' \<longrightarrow> map_of bp' k = map_of bp k)) \<and>
         (group_items [] (xs @ unknown_item # ys) = Inr bp1 \<and> group_items [] (xs @ ys) = Inr bp0
            \<longrightarrow> (\<forall>k. cnt bp1 k = cnt bp0 k + (if k = KStr ''unknown'' then 1 else 0) \<and>
                     smp bp1 k = smp bp0 k)) \<and>
         (collect_diffs dir w = (Inr s, w') \<and> (n, Loaded data) \<in> set (report_files dir) \<and>
          test \<in> set (report_tests data)
            \<longrightarrow> unknown_item \<in> set (items_of_page (JStr ''unknown'') dir) \<and>
                (\<exists>ps \<in> set (pages s). page ps = JStr ''unknown'' \<and>
                   count ps = int (length (items_of_page (JStr ''unknown'') dir)) \<and>
                   1 \<le> count ps \<and>
                   samples ps = take 5 (map fileName
                     (filter (\<lambda>i. truthy (fileName i)) (items_of_page (JStr ''unknown'') dir))) \<and>
                   fileName unknown_item \<notin> set (samples ps)))"
proof -
  note step = pairless_item_step [OF assms, of bp]
  then have fi: "failed_item test = Inr (Some unknown_item)" by blast
  have sc: "scan_tests acc (test # tests) = scan_tests (acc @ [unknown_item]) tests"
    by (simp add: fi bnd_def)
  have lab: "label unknown_item = JStr ''unknown''" and fn: "\<not> truthy (fileName unknown_item)"
    by (simp_all add: unknown_item_def)
  have gr: "\<forall>k. cnt bp1 k = cnt bp0 k + (if k = KStr ''unknown'' then 1 else 0) \<and>
                smp bp1 k = smp bp0 k"
    if "group_items [] (xs @ unknown_item # ys) = Inr bp1 \<and> group_items [] (xs @ ys) = Inr bp0"
  proof
    fix k
    from that have g1: "group_items [] (xs @ unknown_item # ys) = Inr bp1"
      and g0: "group_items [] (xs @ ys) = Inr bp0" by simp_all
    from group_items_extra_item(1) [OF g1 g0, of k] group_items_extra_item(2) [OF g1 g0 fn, of k]
    show "cnt bp1 k = cnt bp0 k + (if k = KStr ''unknown'' then 1 else 0) \<and> smp bp1 k = smp bp0 k"
      by (auto simp: lab)
  qed
  have ag: "unknown_item \<in> set (items_of_page (JStr ''unknown'') dir) \<and>
                (\<exists>ps \<in> set (pages s). page ps = JStr ''unknown'' \<and>
                   count ps = int (length (items_of_page (JStr ''unknown'') dir)) \<and>
                   1 \<le> count ps \<and>
                   samples ps = take 5 (map fileName
                     (filter (\<lambda>i. truthy (fileName i)) (items_of_page (JStr ''unknown'') dir))) \<and>
                   fileName unknown_item \<notin> set (samples ps))"
    if "collect_diffs dir w = (Inr s, w') \<and> (n, Loaded data) \<in> set (report_files dir) \<and>
          test \<in> set (report_tests data)"
  proof -
    from that have run: "collect_diffs dir w = (Inr s, w')"
      and f: "(n, Loaded data) \<in> set (report_files dir)"
      and t: "test \<in> set (report_tests data)" by simp_all
    from entry_in_failed_items [OF f t fi] have mem: "unknown_item \<in> set (failed_items dir)" .
    from unknown_page_of_item [OF run mem lab] obtain ps
      where m: "unknown_item \<in> set (items_of_page (JStr ''unknown'') dir)"
        and ps: "ps \<in> set (pages s)" and pg: "page ps = JStr ''unknown''"
        and c: "count ps = int (length (items_of_page (JStr ''unknown'') dir))"
        and one: "1 \<le> count ps"
        and sm: "samples ps = take 5 (map fileName
                     (filter (\<lambda>i. truthy (fileName i)) (items_of_page (JStr ''unknown'') dir)))"
      by blast
    have "x \<in> set (samples ps) \<Longrightarrow> truthy x" for x
      unfolding sm by (auto dest!: in_set_takeD)
    with fn have "fileName unknown_item \<notin> set (samples ps)" by blast
    with m ps pg c one sm show ?thesis by blast
  qed
  from step sc gr ag show ?thesis by blast
qed

theorem pairless_entry_counts_as_unknown_witness:
  "is_dict pairless_entry \<and> is_failing pairless_entry \<and> \<not> has_field pairless_entry ''pair'' \<and>
   failed_item pairless_entry = Inr (Some unknown_item) \<and>
   scan_tests [] [pairless_entry] = Inr [unknown_item] \<and>
   group_items [] [unknown_item] = Inr unknown_only \<and> group_items [] [] = Inr [] \<and>
   cnt unknown_only (KStr ''unknown'') = cnt [] (KStr ''unknown'') + 1 \<and>
   smp unknown_only (KStr ''unknown'') = smp [] (KStr ''unknown'') \<and>
   collect_diffs example_dir example_world = (Inr example_summary, example_world_after) \<and>
   (''a.json'', Loaded home_report) \<in> set (report_files example_dir) \<and>
   pairless_entry \<in> set (report_tests home_report) \<and>
   unknown_item \<in> set (items_of_page (JStr ''unknown'') example_dir) \<and>
   (\<exists>ps \<in> set (pages example_summary). page ps = JStr ''unknown'' \<and>
      count ps = int (length (items_of_page (JStr ''unknown'') example_dir)) \<and>
      1 \<le> count ps \<and>
      samples ps = take 5 (map fileName
        (filter (\<lambda>i. truthy (fileName i)) (items_of_page (JStr ''unknown'') example_dir))) \<and>
      fileName unknown_item \<notin> set (samples ps))"
proof -
  have h1: "is_dict pairless_entry" by (simp add: pairless_entry_def)
  have h2: "is_failing pairless_entry" by (simp add: pairless_entry_def is_failing_def field_def)
  have h3: "\<not> has_field pairless_entry ''pair''" by (simp add: pairless_entry_def has_field_def)
  have g1: "group_items [] ([] @ unknown_item # []) = Inr unknown_only" by code_simp
  have g0: "group_items [] ([] @ []) = Inr []" by simp
  have run: "collect_diffs example_dir example_world = (Inr example_summary, example_world_after)"
    by code_simp
  have f: "(''a.json'', Loaded home_report) \<in> set (report_files example_dir)" by code_simp
  have t: "pairless_entry \<in> set (report_tests home_report)" by code_simp
  note th = pairless_entry_counts_as_unknown [OF h1 h2 h3, of "[]" "[]" "[]" "[]" "[]" unknown_only "[]"
      example_dir example_world example_summary example_world_after "''a.json''" home_report]
  from th have a: "failed_item pairless_entry = Inr (Some unknown_item)" by blast
  from th have "scan_tests [] (pairless_entry # []) = scan_tests ([] @ [unknown_item]) []"
    by blast
  then have b: "scan_tests [] [pairless_entry] = Inr [unknown_item]" by simp
  from th g1 g0
  have "\<forall>k. cnt unknown_only k = cnt [] k + (if k = KStr ''unknown'' then 1 else 0) \<and>
            smp unknown_only k = smp [] k"
    by blast
  then have c: "cnt unknown_only (KStr ''unknown'') = cnt [] (KStr ''unknown'') + 1"
    and d: "smp unknown_only (KStr ''unknown'') = smp [] (KStr ''unknown'')" by simp_all
  from th run f t have e: "unknown_item \<in> set (items_of_page (JStr ''unknown'') example_dir) \<and>
   (\<exists>ps \<in> set (pages example_summary). page ps = JStr ''unknown'' \<and>
      count ps = int (length (items_of_page (JStr ''unknown'') example_dir)) \<and>
      1 \<le> count ps \<and>
      samples ps = take 5 (map fileName
        (filter (\<lambda>i. truthy (fileName i)) (items_of_page (JStr ''unknown'') example_dir))) \<and>
      fileName unknown_item \<notin> set (samples ps))" by blast
  from g1 g0 have g1': "group_items [] [unknown_item] = Inr unknown_only"
    and g0': "group_items [] [] = Inr []" by simp_all
  from h1 h2 h3 a b g1' g0' c d run f t e show ?thesis by blast
qed

text \<open>
  C7. In every run of \<open>main\<close> that reaches the aggregator and in which
  \<open>collect_diffs\<close> returns an aggregate, the output file, if writable, holds that
  aggregate at the end, whatever it held before. With no report file \<open>collect_diffs\<close>
  returns the empty aggregate without writing (lines 86-87) and the write of \<open>main\<close> at lines
  237-238 persists it; with report files \<open>collect_diffs\<close> has written it already.
\<close>

theorem aggregate_persisted_by_every_run:
  assumes "mkdir_ok e" and "task a \<in> set (existing e)" and "task_text e = Inr text"
    and "collect_diffs (reports e) (out e) = (Inr s, w1)" and "out_writable (out e)"
  shows "out_file (snd (snd (main a e))) = Some s \<and>
         CollectDiffs \<in> set (fst (snd (main a e))) \<and>
         WriteSummary \<in> set (fst (snd (main a e))) \<and>
         (report_files (reports e) = [] \<longrightarrow> s = \<lparr>pages = [], totalFailed = 0\<rparr> \<and> w1 = out e) \<and>
         (report_files (reports e) \<noteq> [] \<longrightarrow> out_file w1 = Some s)"
proof -
  from collect_diffs_writable [OF assms(4)] assms(5) have wr: "out_writable w1" by simp
  have m: "out_file (snd (snd (main a e))) = Some s \<and>
         CollectDiffs \<in> set (fst (snd (main a e))) \<and>
         WriteSummary \<in> set (fst (snd (main a e)))"
    using assms(1-4) wr by (simp add: main_def Let_def write_summary_def)
  have e: "s = \<lparr>pages = [], totalFailed = 0\<rparr> \<and> w1 = out e" if "report_files (reports e) = []"
    using that assms(4) by (simp add: collect_diffs_def)
  have n: "out_file w1 = Some s" if "report_files (reports e) \<noteq> []"
    using that assms(4) by (rule collect_diffs_persists)
  from m e n show ?thesis by blast
qed

theorem aggregate_persisted_by_every_run_witness:
  "mkdir_ok env_no_reports \<and> task example_args \<in> set (existing env_no_reports) \<and>
   task_text env_no_reports = Inr ''Title: refactor'' \<and>
   report_files (reports env_no_reports) = [] \<and>
   collect_diffs (reports env_no_reports) (out env_no_reports) = (Inr empty_summary, stale_world) \<and>
   out_writable (out env_no_reports) \<and>
   out_file (out env_no_reports) = Some example_summary \<and>
   out_file (snd (snd (main example_args env_no_reports))) = Some empty_summary \<and>
   snd (snd (main example_args env_no_reports)) = overwritten_world \<and>
   WriteSummary \<in> set (fst (snd (main example_args env_no_reports))) \<and>
   collect_diffs (reports env_with_task) (out env_with_task) =
     (Inr example_summary, example_world_after) \<and>
   out_file (snd (snd (main example_args env_with_task))) = Some example_summary"
proof -
  have h1: "mkdir_ok env_no_reports" by code_simp
  have h2: "task example_args \<in> set (existing env_no_reports)" by code_simp
  have h3: "task_text env_no_reports = Inr ''Title: refactor''" by code_simp
  have h4: "collect_diffs (reports env_no_reports) (out env_no_reports) =
            (Inr empty_summary, stale_world)" by code_simp
  have h5: "out_writable (out env_no_reports)" by code_simp
  have e: "report_files (reports env_no_reports) = []" by code_simp
  have p: "out_file (out env_no_reports) = Some example_summary" by code_simp
  have o: "snd (snd (main example_args env_no_reports)) = overwritten_world" by code_simp
  have g1: "mkdir_ok env_with_task" by code_simp
  have g2: "task example_args \<in> set (existing env_with_task)" by code_simp
  have g3: "task_text env_with_task = Inr ''Title: refactor''" by code_simp
  have g4: "collect_diffs (reports env_with_task) (out env_with_task) =
            (Inr example_summary, example_world_after)" by code_simp
  have g5: "out_writable (out env_with_task)" by code_simp
  from aggregate_persisted_by_every_run [OF h1 h2 h3 h4 h5]
       aggregate_persisted_by_every_run [OF g1 g2 g3 g4 g5]
       h1 h2 h3 h4 h5 e p o g4
  show ?thesis by blast
qed

section \<open>The check of the task file\<close>



section \<open>Missing and falsy fields\<close>

text \<open>
  C9. A loaded report whose top-level \<open>tests\<close> is missing or \<open>null\<close> holds no failed
  item and raises nothing, and the aggregate returned is the one of the directory without
  such files.
\<close>

theorem missing_tests_no_entries:
  "(tests_missing c \<longrightarrow> items_in_file c = [] \<and> scan_files acc [c] = Inr acc) \<and>
   (out_writable w \<longrightarrow>
      fst (collect_diffs dir w) =
      fst (collect_diffs (filter (\<lambda>e. \<not> tests_missing (snd e)) dir) w))"
proof -
  have 1: "items_in_file c = [] \<and> scan_files acc [c] = Inr acc" if tm: "tests_missing c"
  proof -
    from tm obtain data where c: "c = Loaded data" by (cases c) (auto simp: tests_missing_def)
    from tm c have sr: "scan_report acc data = Inr acc" for acc
      by (simp add: scan_report_tests_missing)
    from scan_report_items [OF sr [of "[]"]] have "items_in_file c = []" using c by simp
    with sr c show ?thesis by (simp add: bnd_def)
  qed
  have 2: "fst (collect_diffs dir w) =
      fst (collect_diffs (filter (\<lambda>e. \<not> tests_missing (snd e)) dir) w)"
    if "out_writable w"
    using collect_diffs_skip [of "\<lambda>c. \<not> tests_missing c", OF scan_files_skip_tests_missing that]
    by simp
  from 1 2 show ?thesis by blast
qed

theorem missing_tests_no_entries_witness:
  "tests_missing tests_null_file \<and> items_in_file tests_null_file = [] \<and>
   scan_files [] [tests_null_file] = Inr [] \<and>
   out_writable example_world \<and>
   fst (collect_diffs example_dir example_world) =
     fst (collect_diffs (filter (\<lambda>e. \<not> tests_missing (snd e)) example_dir) example_world) \<and>
   map fst (filter (\<lambda>e. \<not> tests_missing (snd e)) example_dir) =
     [''b.json'', ''notes.txt'', ''c.json'', ''a.json'']"
proof -
  have t: "tests_missing tests_null_file" by code_simp
  have w: "out_writable example_world" by (simp add: example_world_def)
  have f: "map fst (filter (\<lambda>e. \<not> tests_missing (snd e)) example_dir) =
     [''b.json'', ''notes.txt'', ''c.json'', ''a.json'']" by code_simp
  from missing_tests_no_entries [of tests_null_file "[]" example_world example_dir] t w f
  show ?thesis by simp
qed

text \<open>
  C10. In the item of a failing entry, a \<open>pair.label\<close> that is present and falsy gives
  the label \<open>"unknown"\<close>, as a missing label does, and a \<open>pair.url\<close> that is present and
  falsy gives \<open>""\<close>, as a missing url does. The item is grouped under the key of
  \<open>"unknown"\<close>: one step of the loop adds 1 to the count of that page and touches no other,
  and in the aggregate that \<open>collect_diffs\<close> returns the item is counted in the page
  \<open>"unknown"\<close>. The entry with the label left out and the other fields read alike gives the
  very same item.
\<close>

theorem falsy_label_is_unknown:
  assumes "failed_item test = Inr (Some it)"
  shows "(has_field (field test ''pair'') ''label'' \<and> \<not> truthy (field (field test ''pair'') ''label'')
            \<longrightarrow> label it = JStr ''unknown'' \<and> hash_key (label it) = Some (KStr ''unknown'')) \<and>
         (\<not> has_field (field test ''pair'') ''label''
            \<longrightarrow> label it = JStr ''unknown'' \<and> hash_key (label it) = Some (KStr ''unknown'')) \<and>
         (has_field (field test ''pair'') ''url'' \<and> \<not> truthy (field (field test ''pair'') ''url'')
            \<longrightarrow> url it = JStr []) \<and>
         (\<not> has_field (field test ''pair'') ''url'' \<longrightarrow> url it = JStr []) \<and>
         (\<not> truthy (field (field test ''pair'') ''label'') \<longrightarrow>
            (\<exists>bp'. add_item bp it = Inr bp' \<and>
               cnt bp' (KStr ''unknown'') = cnt bp (KStr ''unknown'') + 1 \<and>
               smp bp' (KStr ''unknown'') =
                 (if length (smp bp (KStr ''unknown'')) < 5 \<and> truthy (fileName it)
                  then smp bp (KStr ''unknown'') @ [fileName it] else smp bp (KStr ''unknown'')) \<and>
               (\<forall>k. k \<noteq> KStr ''unknown'' \<longrightarrow> map_of bp' k = map_of bp k)) \<and>
            (collect_diffs dir w = (Inr s, w') \<and> (n, Loaded data) \<in> set (report_files dir) \<and>
             test \<in> set (report_tests data)
               \<longrightarrow> it \<in> set (items_of_page (JStr ''unknown'') dir) \<and>
                   (\<exists>ps \<in> set (pages s). page ps = JStr ''unknown'' \<and>
                      count ps = int (length (items_of_page (JStr ''unknown'') dir)) \<and>
                      1 \<le> count ps))) \<and>
         (has_field (field test ''pair'') ''label'' \<and>
          \<not> truthy (field (field test ''pair'') ''label'') \<and>
          is_dict test0 \<and> field test0 ''status'' = field test ''status'' \<and>
          is_dict (field test0 ''pair'') \<and> \<not> has_field (field test0 ''pair'') ''label'' \<and>
          field (field test0 ''pair'') ''url'' = field (field test ''pair'') ''url'' \<and>
          field (field test0 ''pair'') ''fileName'' = field (field test ''pair'') ''fileName'' \<and>
          field (field test0 ''pair'') ''diff'' = field (field test ''pair'') ''diff'' \<and>
          field (field test0 ''pair'') ''selectors'' = field (field test ''pair'') ''selectors''
            \<longrightarrow> failed_item test0 = Inr (Some it))"
proof -
  note old = falsy_label_fields [OF assms]
  have lab: "label it = JStr ''unknown''" if "\<not> truthy (field (field test ''pair'') ''label'')"
    using that old by (cases "has_field (field test ''pair'') ''label''") blast+
  have grp: "\<exists>bp'. add_item bp it = Inr bp' \<and>
               cnt bp' (KStr ''unknown'') = cnt bp (KStr ''unknown'') + 1 \<and>
               smp bp' (KStr ''unknown'') =
                 (if length (smp bp (KStr ''unknown'')) < 5 \<and> truthy (fileName it)
                  then smp bp (KStr ''unknown'') @ [fileName it] else smp bp (KStr ''unknown'')) \<and>
               (\<forall>k. k \<noteq> KStr ''unknown'' \<longrightarrow> map_of bp' k = map_of bp k)"
    if f: "\<not> truthy (field (field test ''pair'') ''label'')"
  proof -
    from lab [OF f] have "hash_key (label it) = Some (KStr ''unknown'')" by simp
    from add_item_map_of [OF this, of bp] obtain bp'
      where a: "add_item bp it = Inr bp'"
        and m: "\<And>k. map_of bp' k =
                (if k = KStr ''unknown''
                 then Some (bump (fileName it) (entry_or_new bp (KStr ''unknown'') it))
                 else map_of bp k)"
      by blast
    have c: "cnt bp' (KStr ''unknown'') = cnt bp (KStr ''unknown'') + 1"
      using m [of "KStr ''unknown''"]
      by (simp add: cnt_def entry_or_new_def split: option.splits)
    have sm: "smp bp' (KStr ''unknown'') =
                 (if length (smp bp (KStr ''unknown'')) < 5 \<and> truthy (fileName it)
                  then smp bp (KStr ''unknown'') @ [fileName it] else smp bp (KStr ''unknown''))"
      using m [of "KStr ''unknown''"]
      by (simp add: smp_def entry_or_new_def split: option.splits)
    from a c sm m show ?thesis by auto
  qed
  have agg: "it \<in> set (items_of_page (JStr ''unknown'') dir) \<and>
                   (\<exists>ps \<in> set (pages s). page ps = JStr ''unknown'' \<and>
                      count ps = int (length (items_of_page (JStr ''unknown'') dir)) \<and>
                      1 \<le> count ps)"
    if f: "\<not> truthy (field (field test ''pair'') ''label'')"
      and h: "collect_diffs dir w = (Inr s, w') \<and> (n, Loaded data) \<in> set (report_files dir) \<and>
             test \<in> set (report_tests data)"
  proof -
    from h have run: "collect_diffs dir w = (Inr s, w')"
      and fl: "(n, Loaded data) \<in> set (report_files dir)"
      and t: "test \<in> set (report_tests data)" by simp_all
    from entry_in_failed_items [OF fl t assms] have mem: "it \<in> set (failed_items dir)" .
    from unknown_page_of_item [OF run mem lab [OF f]] show ?thesis by blast
  qed
  have same: "failed_item test0 = Inr (Some it)"
    if h: "has_field (field test ''pair'') ''label'' \<and>
          \<not> truthy (field (field test ''pair'') ''label'') \<and>
          is_dict test0 \<and> field test0 ''status'' = field test ''status'' \<and>
          is_dict (field test0 ''pair'') \<and> \<not> has_field (field test0 ''pair'') ''label'' \<and>
          field (field test0 ''pair'') ''url'' = field (field test ''pair'') ''url'' \<and>
          field (field test0 ''pair'') ''fileName'' = field (field test ''pair'') ''fileName'' \<and>
          field (field test0 ''pair'') ''diff'' = field (field test ''pair'') ''diff'' \<and>
          field (field test0 ''pair'') ''selectors'' = field (field test ''pair'') ''selectors''"
  proof -
    note d = failed_item_Some_dict [OF assms]
    from h have hl: "has_field (field test ''pair'') ''label''" by simp
    then have pd: "is_dict (field test ''pair'')" using not_dict_field by blast
    then have hp: "has_field test ''pair''" by (rule dict_field_present)
    from h have pd0: "is_dict (field test0 ''pair'')" by simp
    then have hp0: "has_field test0 ''pair''" by (rule dict_field_present)
    from h have nl0: "field (field test0 ''pair'') ''label'' = JNull"
      by (cases "field test0 ''pair''") (auto simp: has_field_def field_def)
    from h have fl: "\<not> truthy (field (field test ''pair'') ''label'')" by simp
    from h d(2) have st0: "field test0 ''status'' = JStr ''fail''" by simp
    from h have td0: "is_dict test0" by simp
    have e1: "failed_item test = failed_item test0"
      unfolding failed_item_dict [OF d(1) d(2) refl d(3)]
        failed_item_dict [OF td0 st0 refl, simplified hp0 if_True, OF pd0]
      using h hp fl nl0 by (simp add: py_or_def)
    with assms show ?thesis by simp
  qed
  from old grp agg same show ?thesis by blast
qed

theorem falsy_label_is_unknown_witness:
  "failed_item falsy_label_entry = Inr (Some falsy_label_item) \<and>
   has_field (field falsy_label_entry ''pair'') ''label'' \<and>
   \<not> truthy (field (field falsy_label_entry ''pair'') ''label'') \<and>
   has_field (field falsy_label_entry ''pair'') ''url'' \<and>
   \<not> truthy (field (field falsy_label_entry ''pair'') ''url'') \<and>
   label falsy_label_item = JStr ''unknown'' \<and>
   hash_key (label falsy_label_item) = Some (KStr ''unknown'') \<and>
   url falsy_label_item = JStr [] \<and>
   (\<exists>bp'. add_item [] falsy_label_item = Inr bp' \<and>
      cnt bp' (KStr ''unknown'') = 1 \<and> smp bp' (KStr ''unknown'') = [JStr ''x.png'']) \<and>
   collect_diffs (one_report falsy_report) example_world = (Inr falsy_summary, falsy_world_after) \<and>
   (''run.json'', Loaded falsy_report) \<in> set (report_files (one_report falsy_report)) \<and>
   falsy_label_entry \<in> set (report_tests falsy_report) \<and>
   falsy_label_item \<in> set (items_of_page (JStr ''unknown'') (one_report falsy_report)) \<and>
   (\<exists>ps \<in> set (pages falsy_summary). page ps = JStr ''unknown'' \<and>
      count ps = int (length (items_of_page (JStr ''unknown'') (one_report falsy_report))) \<and>
      1 \<le> count ps) \<and>
   is_dict labelless_entry \<and> \<not> has_field (field labelless_entry ''pair'') ''label'' \<and>
   failed_item labelless_entry = Inr (Some falsy_label_item)"
proof -
  have run: "failed_item falsy_label_entry = Inr (Some falsy_label_item)" by code_simp
  have h1: "has_field (field falsy_label_entry ''pair'') ''label''" by code_simp
  have h2: "\<not> truthy (field (field falsy_label_entry ''pair'') ''label'')" by code_simp
  have h3: "has_field (field falsy_label_entry ''pair'') ''url''" by code_simp
  have h4: "\<not> truthy (field (field falsy_label_entry ''pair'') ''url'')" by code_simp
  have cd: "collect_diffs (one_report falsy_report) example_world =
            (Inr falsy_summary, falsy_world_after)" by code_simp
  have f: "(''run.json'', Loaded falsy_report) \<in> set (report_files (one_report falsy_report))"
    by code_simp
  have t: "falsy_label_entry \<in> set (report_tests falsy_report)" by code_simp
  have l1: "is_dict labelless_entry" by code_simp
  have l2: "field labelless_entry ''status'' = field falsy_label_entry ''status''" by code_simp
  have l3: "is_dict (field labelless_entry ''pair'')" by code_simp
  have l4: "\<not> has_field (field labelless_entry ''pair'') ''label''" by code_simp
  have l5: "field (field labelless_entry ''pair'') ''url'' =
            field (field falsy_label_entry ''pair'') ''url''" by code_simp
  have l6: "field (field labelless_entry ''pair'') ''fileName'' =
            field (field falsy_label_entry ''pair'') ''fileName''" by code_simp
  have l7: "field (field labelless_entry ''pair'') ''diff'' =
            field (field falsy_label_entry ''pair'') ''diff''" by code_simp
  have l8: "field (field labelless_entry ''pair'') ''selectors'' =
            field (field falsy_label_entry ''pair'') ''selectors''" by code_simp
  have fn: "truthy (fileName falsy_label_item)" "fileName falsy_label_item = JStr ''x.png''"
    by (simp_all add: falsy_label_item_def)
  note th = falsy_label_is_unknown [OF run, of "[]" "one_report falsy_report" example_world
      falsy_summary falsy_world_after "''run.json''" falsy_report labelless_entry]
  from th h1 h2 have a: "label falsy_label_item = JStr ''unknown'' \<and>
      hash_key (label falsy_label_item) = Some (KStr ''unknown'')" by blast
  from th h3 h4 have b: "url falsy_label_item = JStr []" by blast
  from th h2 obtain bp' where "add_item [] falsy_label_item = Inr bp'"
    and "cnt bp' (KStr ''unknown'') = cnt [] (KStr ''unknown'') + 1"
    and "smp bp' (KStr ''unknown'') =
                 (if length (smp [] (KStr ''unknown'')) < 5 \<and> truthy (fileName falsy_label_item)
                  then smp [] (KStr ''unknown'') @ [fileName falsy_label_item]
                  else smp [] (KStr ''unknown''))"
    by blast
  then have c: "\<exists>bp'. add_item [] falsy_label_item = Inr bp' \<and>
      cnt bp' (KStr ''unknown'') = 1 \<and> smp bp' (KStr ''unknown'') = [JStr ''x.png'']"
    using fn by (intro exI [of _ bp']) (simp add: cnt_def smp_def)
  from th h2 cd f t
  have d: "falsy_label_item \<in> set (items_of_page (JStr ''unknown'') (one_report falsy_report)) \<and>
   (\<exists>ps \<in> set (pages falsy_summary). page ps = JStr ''unknown'' \<and>
      count ps = int (length (items_of_page (JStr ''unknown'') (one_report falsy_report))) \<and>
      1 \<le> count ps)" by blast
  from th h1 h2 l1 l2 l3 l4 l5 l6 l7 l8
  have e: "failed_item labelless_entry = Inr (Some falsy_label_item)" by blast
  from run h1 h2 h3 h4 a b c cd f t d l1 l4 e show ?thesis by blast
qed

end
